theory Spec2Isabelle
  imports Main "HOL-Library.Word" "HOL-Library.Sublist"
begin

section \<open>Values of the document tree\<close>

text \<open>
  The Go code works on values of the dynamic type \<open>any\<close>.  The walker distinguishes three
  shapes by a type switch: \<open>map[string]any\<close>, \<open>[]any\<close> and everything else (the
  \<open>default\<close> branch).  The transform engine additionally asks whether a value is a
  \<open>string\<close>.  A Go string is a sequence of bytes, as an Isabelle \<open>string\<close> is.

  A Go map has unique keys and no iteration order.  It is modelled as an association list:
  the order of the list is the order in which \<open>range\<close> happens to visit the entries, and a
  theorem that holds for every list holds for every iteration order.  Uniqueness of the
  keys is the predicate \<open>unique_keys\<close> below, assumed where a claim needs it.

  \<open>AFloat\<close> carries the IEEE-754 bits of a \<open>float64\<close>; \<open>AOther\<close> stands for a value of any other
  dynamic type (a \<open>time.Time\<close>, a \<open>[]map[string]any\<close>, ...), which the walker treats as a leaf.
\<close>

datatype any =
    ANil
  | ABool bool
  | AInt int
  | AFloat "64 word"
  | AString string
  | ASlice "any list"
  | AMap "(string \<times> any) list"
  | AOther string

fun is_container :: "any \<Rightarrow> bool" where
  "is_container (AMap m) = True"
| "is_container (ASlice s) = True"
| "is_container v = False"

section \<open>Package walk\<close>

subsection \<open>Decimal formatting and scanning of sequence indices\<close>

text \<open>
  \<open>fmt.Sprintf("[%d]", i)\<close> for a non-negative \<open>int\<close>: the decimal digits of \<open>i\<close> between
  brackets.
\<close>

definition digit_char :: "nat \<Rightarrow> char" where
  "digit_char d = char_of (48 + d)"

fun itoa :: "nat \<Rightarrow> string" where
  "itoa n = (if n < 10 then [digit_char n] else itoa (n div 10) @ [digit_char (n mod 10)])"

declare itoa.simps [simp del]

definition indexKey :: "nat \<Rightarrow> string" where
  "indexKey i = ''['' @ itoa i @ '']''"

text \<open>
  \<open>fmt.Sscanf(indexStr, "%d", &index)\<close> of the Go standard library, for a 64-bit \<open>int\<close>:
  leading space runes are skipped (a newline is not one of them for the \<open>Sscanf\<close> family),
  one optional sign is accepted, then the longest run of decimal digits and underscores is
  taken as the token, which must not be empty; the token is converted by
  \<open>strconv.ParseInt(tok, 10, 64)\<close>, which rejects underscores and values outside the
  64-bit range.  Input after the token is ignored.  \<open>None\<close> is a non-nil error.
\<close>

fun space_rune_len :: "string \<Rightarrow> nat" where
  "space_rune_len [] = 0"
| "space_rune_len (c # cs) =
     (let b = of_char c :: nat; bs = map of_char (take 2 cs) :: nat list in
      if b = 0x09 \<or> b = 0x0B \<or> b = 0x0C \<or> b = 0x0D \<or> b = 0x20 then 1
      else if b = 0xC2 \<and> (take 1 bs = [0x85] \<or> take 1 bs = [0xA0]) then 2
      else if b = 0xE1 \<and> bs = [0x9A, 0x80] then 3
      else if b = 0xE2 \<and> length bs = 2 \<and> bs ! 0 = 0x80 \<and>
              (0x80 \<le> bs ! 1 \<and> bs ! 1 \<le> 0x8A \<or> bs ! 1 = 0xA8 \<or> bs ! 1 = 0xA9 \<or> bs ! 1 = 0xAF) then 3
      else if b = 0xE2 \<and> bs = [0x81, 0x9F] then 3
      else if b = 0xE3 \<and> bs = [0x80, 0x80] then 3
      else 0)"

function SkipSpace :: "string \<Rightarrow> string" where
  "SkipSpace s = (if space_rune_len s = 0 then s else SkipSpace (drop (space_rune_len s) s))"
  by pat_completeness auto
termination
proof (relation "measure length")
  fix s :: string
  assume "space_rune_len s \<noteq> 0"
  then have "s \<noteq> []" by (cases s) auto
  then have "0 < length s" by simp
  with \<open>space_rune_len s \<noteq> 0\<close> show "(drop (space_rune_len s) s, s) \<in> measure length"
    by simp
qed simp

declare SkipSpace.simps [simp del]

definition is_digit :: "char \<Rightarrow> bool" where
  "is_digit c = (48 \<le> (of_char c :: nat) \<and> (of_char c :: nat) \<le> 57)"

definition digit_val :: "char \<Rightarrow> nat" where
  "digit_val c = of_char c - 48"

definition atoi :: "string \<Rightarrow> nat" where
  "atoi ds = foldl (\<lambda>acc c. 10 * acc + digit_val c) 0 ds"

definition ParseInt :: "string \<Rightarrow> int option" where
  "ParseInt tok =
     (let neg = (take 1 tok = ''-'');
          ds = (if take 1 tok = ''-'' \<or> take 1 tok = ''+'' then drop 1 tok else tok)
      in if ds = [] \<or> \<not> list_all is_digit ds then None
         else let v = (if neg then - int (atoi ds) else int (atoi ds))
              in if v < - (2 ^ 63) \<or> 2 ^ 63 - 1 < v then None else Some v)"

definition Sscanf_d :: "string \<Rightarrow> int option" where
  "Sscanf_d str =
     (let s = SkipSpace str;
          sgn = (if take 1 s = ''-'' \<or> take 1 s = ''+'' then take 1 s else []);
          run = takeWhile (\<lambda>c. is_digit c \<or> c = CHR ''_'') (drop (length sgn) s)
      in if run = [] then None else ParseInt (sgn @ run))"

subsection \<open>Walk, walkValue, walkMap, walkSlice\<close>

text \<open>
  A \<open>VisitFunc\<close> is called with the path, the key and the value, and returns the new value
  and whether to continue.  The visitors of this repository are closures that append to a
  variable of the enclosing function; the model threads that variable as a state \<open>'s\<close>.

  The path is a \<open>[]string\<close>; the model keeps the contents the slice has when it is passed
  or stored.

  \<open>walkValue\<close> descends into the value the visitor returned, so a visitor that keeps
  returning new containers makes the Go recursion unbounded.  The model carries the
  recursion depth still available as its first argument: \<open>None\<close> means that the depth
  was exhausted, and the Go function returns exactly when some depth suffices.
  \<open>walkMap\<close> and \<open>walkSlice\<close> receive the recursive call \<open>walkValue d visit\<close> as \<open>walk\<close>.
\<close>

type_synonym 's VisitFunc = "string list \<Rightarrow> string \<Rightarrow> any \<Rightarrow> 's \<Rightarrow> (any \<times> bool) \<times> 's"

type_synonym 's walker = "string list \<Rightarrow> string \<Rightarrow> any \<Rightarrow> 's \<Rightarrow> (any \<times> 's) option"

definition currentPath :: "string list \<Rightarrow> string \<Rightarrow> string list" where
  "currentPath parentPath parentKey =
     (if parentKey \<noteq> [] then parentPath @ [parentKey] else parentPath)"

fun walkMapLoop :: "'s walker \<Rightarrow> string list \<Rightarrow> (string \<times> any) list \<Rightarrow> 's
    \<Rightarrow> ((string \<times> any) list \<times> 's) option" where
  "walkMapLoop walk cp [] st = Some ([], st)"
| "walkMapLoop walk cp ((k, v) # m) st =
     (case walk cp k v st of
        None \<Rightarrow> None
      | Some (newValue, st1) \<Rightarrow>
          (case walkMapLoop walk cp m st1 of
             None \<Rightarrow> None
           | Some (result, st2) \<Rightarrow> Some ((k, newValue) # result, st2)))"

definition walkMap :: "'s walker \<Rightarrow> string list \<Rightarrow> string \<Rightarrow> (string \<times> any) list \<Rightarrow> 's
    \<Rightarrow> (any \<times> 's) option" where
  "walkMap walk parentPath parentKey m st =
     (case walkMapLoop walk (currentPath parentPath parentKey) m st of
        None \<Rightarrow> None
      | Some (result, st1) \<Rightarrow> Some (AMap result, st1))"

fun walkSliceLoop :: "'s walker \<Rightarrow> string list \<Rightarrow> nat \<Rightarrow> any list \<Rightarrow> 's
    \<Rightarrow> (any list \<times> 's) option" where
  "walkSliceLoop walk cp i [] st = Some ([], st)"
| "walkSliceLoop walk cp i (v # s) st =
     (case walk cp (indexKey i) v st of
        None \<Rightarrow> None
      | Some (newValue, st1) \<Rightarrow>
          (case walkSliceLoop walk cp (Suc i) s st1 of
             None \<Rightarrow> None
           | Some (result, st2) \<Rightarrow> Some (newValue # result, st2)))"

definition walkSlice :: "'s walker \<Rightarrow> string list \<Rightarrow> string \<Rightarrow> any list \<Rightarrow> 's
    \<Rightarrow> (any \<times> 's) option" where
  "walkSlice walk parentPath parentKey s st =
     (case walkSliceLoop walk (currentPath parentPath parentKey) 0 s st of
        None \<Rightarrow> None
      | Some (result, st1) \<Rightarrow> Some (ASlice result, st1))"

primrec walkValue :: "nat \<Rightarrow> 's VisitFunc \<Rightarrow> 's walker" where
  "walkValue 0 visit path key val st = None"
| "walkValue (Suc d) visit path key val st =
     (case visit path key val st of
        ((newValue, cont), st1) \<Rightarrow>
          if \<not> cont then Some (newValue, st1)
          else (case newValue of
                  AMap m \<Rightarrow> walkMap (walkValue d visit) path key m st1
                | ASlice s \<Rightarrow> walkSlice (walkValue d visit) path key s st1
                | _ \<Rightarrow> Some (newValue, st1)))"

definition Walk :: "nat \<Rightarrow> any \<Rightarrow> 's VisitFunc \<Rightarrow> 's \<Rightarrow> (any \<times> 's) option" where
  "Walk d data visit st = walkValue d visit [] [] data st"

subsection \<open>FindFields and GetValue\<close>

record FieldInfo =
  Path_fi :: "string list"
  Key_fi :: string
  Value_fi :: any

definition findVisit :: "(string list \<Rightarrow> string \<Rightarrow> any \<Rightarrow> bool) \<Rightarrow> FieldInfo list VisitFunc" where
  "findVisit predicate path key val results =
     (if predicate path key val
      then ((val, True), results @ [\<lparr>Path_fi = path @ [key], Key_fi = key, Value_fi = val\<rparr>])
      else ((val, True), results))"

definition FindFields :: "nat \<Rightarrow> any \<Rightarrow> (string list \<Rightarrow> string \<Rightarrow> any \<Rightarrow> bool)
    \<Rightarrow> FieldInfo list option" where
  "FindFields d data predicate = map_option snd (Walk d data (findVisit predicate) [])"

text \<open>
  \<open>GetValue\<close> returns \<open>(nil, false)\<close> when the lookup fails.  The loop over the path is the
  recursion on the path; \<open>current\<close> is the first argument.
\<close>

fun GetValue :: "any \<Rightarrow> string list \<Rightarrow> any \<times> bool" where
  "GetValue current [] = (current, True)"
| "GetValue (AMap v) (key # path) =
     (case map_of v key of
        None \<Rightarrow> (ANil, False)
      | Some val \<Rightarrow> GetValue val path)"
| "GetValue (ASlice v) (key # path) =
     (if length key < 3 \<or> key ! 0 \<noteq> CHR ''['' \<or> key ! (length key - 1) \<noteq> CHR '']''
      then (ANil, False)
      else (case Sscanf_d (take (length key - 2) (drop 1 key)) of
              None \<Rightarrow> (ANil, False)
            | Some index \<Rightarrow>
                if index < 0 \<or> index \<ge> int (length v) then (ANil, False)
                else GetValue (v ! nat index) path))"
| "GetValue current (key # path) = (ANil, False)"

text \<open>
  \<open>IsScalarValue\<close> on the values of the model: \<open>nil\<close> is a scalar, a map or a slice is not.
\<close>

fun IsScalarValue :: "any \<Rightarrow> bool" where
  "IsScalarValue (AMap m) = False"
| "IsScalarValue (ASlice s) = False"
| "IsScalarValue v = True"


section \<open>Package enc\<close>

text \<open>
  Errors are values.  \<open>Errorf msg\<close> is \<open>fmt.Errorf(msg)\<close>, \<open>Wrap msg err\<close> is
  \<open>fmt.Errorf(msg + ": %w", err)\<close>, \<open>External msg\<close> is an error reported by a library
  outside this repository, and \<open>Panic msg\<close> is a run-time panic (a failed type assertion),
  which is not a returned error but ends the call all the same.
\<close>

datatype error =
    Errorf string
  | Wrap string error
  | External string
  | Panic string

datatype Recipient = X25519Recipient string | ScryptRecipient string | OtherRecipient string

datatype Identity = X25519Identity string | ScryptIdentity string | OtherIdentity string

text \<open>
  The collaborators outside this repository are parameters of the model: the file system
  behind the two \<open>load...FromFile\<close> helpers, the age library (key parsing, sealing with
  ASCII armor, opening), \<open>encoding/json\<close> and the TOML codec.  Sealing is randomised, so
  \<open>age_seal\<close> also receives the number of the draw; the model counts the sealing calls
  of one pass and hands each call its own number.  \<open>age_open armored identities\<close> stands for
  the armor reader, \<open>age.Decrypt\<close> and \<open>io.ReadAll\<close> together, \<open>age_seal\<close> for the armor
  writer and \<open>age.Encrypt\<close>; their errors are the errors the wrapping function returns.
\<close>

record deps =
  loadIdentitiesFromFile :: "string \<Rightarrow> error + Identity list"
  loadRecipientsFromFile :: "string \<Rightarrow> error + Recipient list"
  ParseX25519Identity :: "string \<Rightarrow> error + Identity"
  ParseX25519Recipient :: "string \<Rightarrow> error + Recipient"
  NewScryptIdentity :: "string \<Rightarrow> error + Identity"
  NewScryptRecipient :: "string \<Rightarrow> error + Recipient"
  age_seal :: "nat \<Rightarrow> string \<Rightarrow> Recipient list \<Rightarrow> error + string"
  age_open :: "string \<Rightarrow> Identity list \<Rightarrow> error + string"
  json_Marshal :: "any \<Rightarrow> error + string"
  json_Unmarshal :: "string \<Rightarrow> error + any"
  toml_Unmarshal :: "string \<Rightarrow> error + (string \<times> any) list"
  toml_Encode :: "any \<Rightarrow> error + string"

text \<open>
  \<open>PassphraseProvider\<close> is a function without arguments; it is modelled by what it returns,
  \<open>None\<close> being the nil function.
\<close>

record KeySources =
  IdentitiesFile :: string
  IdentitiesData :: "string list"
  RecipientsFile :: string
  Recipients :: "string list"
  PassphraseProvider :: "(error + string) option"

fun parseEach :: "(string \<Rightarrow> error + 'a) \<Rightarrow> string \<Rightarrow> string list \<Rightarrow> 'a list \<Rightarrow> error + 'a list" where
  "parseEach parse msg [] acc = Inr acc"
| "parseEach parse msg (str # strs) acc =
     (case parse str of
        Inl err \<Rightarrow> Inl (Wrap msg err)
      | Inr x \<Rightarrow> parseEach parse msg strs (acc @ [x]))"

definition LoadIdentities :: "deps \<Rightarrow> KeySources \<Rightarrow> error + Identity list" where
  "LoadIdentities ext ks =
     (case (if IdentitiesFile ks \<noteq> []
            then (case loadIdentitiesFromFile ext (IdentitiesFile ks) of
                    Inl err \<Rightarrow> Inl (Wrap (''failed to load identities from file '' @ IdentitiesFile ks) err)
                  | Inr fileIdentities \<Rightarrow> Inr fileIdentities)
            else Inr []) of
        Inl err \<Rightarrow> Inl err
      | Inr ids1 \<Rightarrow>
          (case parseEach (ParseX25519Identity ext) ''failed to parse identity'' (IdentitiesData ks) ids1 of
             Inl err \<Rightarrow> Inl err
           | Inr ids2 \<Rightarrow>
               (case PassphraseProvider ks of
                  None \<Rightarrow> Inr ids2
                | Some (Inl err) \<Rightarrow> Inl (Wrap ''failed to get passphrase'' err)
                | Some (Inr passphrase) \<Rightarrow>
                    (case NewScryptIdentity ext passphrase of
                       Inl err \<Rightarrow> Inl (Wrap ''failed to create scrypt identity'' err)
                     | Inr scryptIdentity \<Rightarrow> Inr (ids2 @ [scryptIdentity])))))"

definition LoadRecipients :: "deps \<Rightarrow> KeySources \<Rightarrow> error + Recipient list" where
  "LoadRecipients ext ks =
     (case (if RecipientsFile ks \<noteq> []
            then (case loadRecipientsFromFile ext (RecipientsFile ks) of
                    Inl err \<Rightarrow> Inl (Wrap (''failed to load recipients from file '' @ RecipientsFile ks) err)
                  | Inr fileRecipients \<Rightarrow> Inr fileRecipients)
            else Inr []) of
        Inl err \<Rightarrow> Inl err
      | Inr rs1 \<Rightarrow>
          (case parseEach (ParseX25519Recipient ext) ''failed to parse recipient'' (Recipients ks) rs1 of
             Inl err \<Rightarrow> Inl err
           | Inr rs2 \<Rightarrow>
               (case PassphraseProvider ks of
                  None \<Rightarrow> Inr rs2
                | Some (Inl err) \<Rightarrow> Inl (Wrap ''failed to get passphrase'' err)
                | Some (Inr passphrase) \<Rightarrow>
                    (case NewScryptRecipient ext passphrase of
                       Inl err \<Rightarrow> Inl (Wrap ''failed to create scrypt recipient'' err)
                     | Inr scryptRecipient \<Rightarrow> Inr (rs2 @ [scryptRecipient])))))"

definition Encrypt :: "deps \<Rightarrow> nat \<Rightarrow> string \<Rightarrow> Recipient list \<Rightarrow> error + string" where
  "Encrypt ext draw data recipients =
     (if length recipients = 0 then Inl (Errorf ''no recipients provided'')
      else age_seal ext draw data recipients)"

definition Decrypt :: "deps \<Rightarrow> string \<Rightarrow> Identity list \<Rightarrow> error + string" where
  "Decrypt ext armoredData identities =
     (if length identities = 0 then Inl (Errorf ''no identities provided'')
      else age_open ext armoredData identities)"

fun GetRecipientStrings :: "Recipient list \<Rightarrow> string list" where
  "GetRecipientStrings [] = []"
| "GetRecipientStrings (X25519Recipient str # recipients) = str # GetRecipientStrings recipients"
| "GetRecipientStrings (ScryptRecipient p # recipients) = ''passphrase'' # GetRecipientStrings recipients"
| "GetRecipientStrings (OtherRecipient x # recipients) = GetRecipientStrings recipients"

fun HasPassphraseRecipient :: "Recipient list \<Rightarrow> bool" where
  "HasPassphraseRecipient [] = False"
| "HasPassphraseRecipient (ScryptRecipient p # recipients) = True"
| "HasPassphraseRecipient (r # recipients) = HasPassphraseRecipient recipients"

section \<open>Package viola\<close>

record Options =
  Keys :: KeySources
  PrivatePrefix :: string
  ShouldEncrypt :: "(string list \<Rightarrow> string \<Rightarrow> any \<Rightarrow> bool) option"
  EmitASCIIQR :: bool
  QRCommentPrefix :: string
  Indent :: string

definition setDefaults :: "Options \<Rightarrow> Options" where
  "setDefaults opts =
     (let o1 = (if PrivatePrefix opts = [] then opts\<lparr>PrivatePrefix := ''private_''\<rparr> else opts);
          o2 = (if QRCommentPrefix o1 = [] then o1\<lparr>QRCommentPrefix := ''# ''\<rparr> else o1)
      in if Indent o2 = [] then o2\<lparr>Indent := ''  ''\<rparr> else o2)"

definition HasPrefix :: "string \<Rightarrow> string \<Rightarrow> bool" where
  "HasPrefix s pre = (take (length pre) s = pre)"

definition shouldEncryptField :: "Options \<Rightarrow> string list \<Rightarrow> string \<Rightarrow> any \<Rightarrow> bool" where
  "shouldEncryptField opts path key val =
     (case ShouldEncrypt opts of
        Some f \<Rightarrow> f path key val
      | None \<Rightarrow> HasPrefix key (PrivatePrefix opts))"

record FieldMeta =
  Path :: "string list"
  WasEncrypted :: bool
  Armored :: string
  ASCIIQR :: string
  UsedRecipients :: "string list"
  UsedPassphrase :: bool

record Result =
  Tree :: "(string \<times> any) list"
  Fields :: "FieldMeta list"

text \<open>\<open>strings.Contains\<close>: the second string occurs in the first as a run of consecutive bytes.\<close>

fun Contains :: "string \<Rightarrow> string \<Rightarrow> bool" where
  "Contains [] substr = (substr = [])"
| "Contains (c # cs) substr = (take (length substr) (c # cs) = substr \<or> Contains cs substr)"

definition beginMarker :: string where
  "beginMarker = ''-----BEGIN AGE ENCRYPTED FILE-----''"

definition endMarker :: string where
  "endMarker = ''-----END AGE ENCRYPTED FILE-----''"

definition isArmoredData :: "string \<Rightarrow> bool" where
  "isArmoredData s = (Contains s beginMarker \<and> Contains s endMarker)"

text \<open>
  Both visitors test a value with \<open>strValue, ok := value.(string); ok && isArmoredData(strValue)\<close>.
\<close>

definition armoredString :: "any \<Rightarrow> string option" where
  "armoredString val =
     (case val of
        AString strValue \<Rightarrow> if isArmoredData strValue then Some strValue else None
      | _ \<Rightarrow> None)"

subsection \<open>Load\<close>

definition decodeJSON :: "deps \<Rightarrow> string \<Rightarrow> any" where
  "decodeJSON ext decrypted =
     (case json_Unmarshal ext decrypted of
        Inl err \<Rightarrow> AString decrypted
      | Inr jsonValue \<Rightarrow> jsonValue)"

definition loadMeta :: "string list \<Rightarrow> string \<Rightarrow> string \<Rightarrow> FieldMeta" where
  "loadMeta path key strValue =
     \<lparr>Path = path @ [key], WasEncrypted = True, Armored = strValue, ASCIIQR = [],
      UsedRecipients = [], UsedPassphrase = False\<rparr>"

definition loadVisit :: "deps \<Rightarrow> Identity list \<Rightarrow> FieldMeta list VisitFunc" where
  "loadVisit ext identities path key val fs =
     (case armoredString val of
        Some strValue \<Rightarrow>
          (case Decrypt ext strValue identities of
             Inl err \<Rightarrow> ((val, True), fs @ [loadMeta path key strValue])
           | Inr decrypted \<Rightarrow>
               ((decodeJSON ext decrypted, True), fs @ [loadMeta path key strValue]))
      | None \<Rightarrow> ((val, True), fs))"

text \<open>
  \<open>LoadTree\<close> is \<open>Load\<close> from the walk on: it receives the parsed tree and the identities.
  The last step of \<open>Load\<close> is the type assertion \<open>decryptedTree.(map[string]any)\<close>.
\<close>

definition LoadTree :: "nat \<Rightarrow> deps \<Rightarrow> (string \<times> any) list \<Rightarrow> Identity list \<Rightarrow> (error + Result) option" where
  "LoadTree d ext tree identities =
     (case Walk d (AMap tree) (loadVisit ext identities) [] of
        None \<Rightarrow> None
      | Some (decryptedTree, fs) \<Rightarrow>
          (case decryptedTree of
             AMap m \<Rightarrow> Some (Inr \<lparr>Tree = m, Fields = fs\<rparr>)
           | _ \<Rightarrow> Some (Inl (Panic ''interface conversion''))))"

definition Load :: "nat \<Rightarrow> deps \<Rightarrow> string \<Rightarrow> Options \<Rightarrow> (error + Result) option" where
  "Load d ext data opts0 =
     (let opts = setDefaults opts0 in
      case toml_Unmarshal ext data of
        Inl err \<Rightarrow> Some (Inl (Wrap ''failed to parse TOML'' err))
      | Inr tree \<Rightarrow>
          (case LoadIdentities ext (Keys opts) of
             Inl err \<Rightarrow> Some (Inl (Wrap ''failed to load identities'' err))
           | Inr identities \<Rightarrow> LoadTree d ext tree identities))"

subsection \<open>Save\<close>

record saveState =
  recorded :: "FieldMeta list"
  draws :: nat

definition saveMeta :: "Recipient list \<Rightarrow> string list \<Rightarrow> string \<Rightarrow> string \<Rightarrow> FieldMeta" where
  "saveMeta recipients path key armored =
     \<lparr>Path = path @ [key], WasEncrypted = True, Armored = armored, ASCIIQR = [],
      UsedRecipients = GetRecipientStrings recipients,
      UsedPassphrase = HasPassphraseRecipient recipients\<rparr>"

definition saveVisit :: "deps \<Rightarrow> Options \<Rightarrow> Recipient list \<Rightarrow> saveState VisitFunc" where
  "saveVisit ext opts recipients path key val st =
     (if shouldEncryptField opts path key val then
        (case armoredString val of
           Some strValue \<Rightarrow>
             ((val, True), st\<lparr>recorded := recorded st @ [saveMeta recipients path key strValue]\<rparr>)
         | None \<Rightarrow>
             (case (case val of AString strValue \<Rightarrow> Inr strValue | _ \<Rightarrow> json_Marshal ext val) of
                Inl err \<Rightarrow> ((val, True), st)
              | Inr dataToEncrypt \<Rightarrow>
                  (case Encrypt ext (draws st) dataToEncrypt recipients of
                     Inl err \<Rightarrow> ((val, True), st\<lparr>draws := Suc (draws st)\<rparr>)
                   | Inr encrypted \<Rightarrow>
                       ((AString encrypted, True),
                        st\<lparr>recorded := recorded st @ [saveMeta recipients path key encrypted],
                           draws := Suc (draws st)\<rparr>))))
      else ((val, True), st))"

text \<open>
  \<open>SaveTree\<close> is \<open>Save\<close> up to the walk: it returns the encrypted tree and the field records.
  \<open>Save\<close> then serialises the tree.
\<close>

definition SaveTree :: "nat \<Rightarrow> deps \<Rightarrow> any \<Rightarrow> Options \<Rightarrow> (error + any \<times> FieldMeta list) option" where
  "SaveTree d ext tree opts0 =
     (let opts = setDefaults opts0 in
      case LoadRecipients ext (Keys opts) of
        Inl err \<Rightarrow> Some (Inl (Wrap ''failed to load recipients'' err))
      | Inr recipients \<Rightarrow>
          if length recipients = 0 then Some (Inl (Errorf ''no recipients available for encryption''))
          else (case Walk d tree (saveVisit ext opts recipients) \<lparr>recorded = [], draws = 0\<rparr> of
                  None \<Rightarrow> None
                | Some (encryptedTree, st) \<Rightarrow> Some (Inr (encryptedTree, recorded st))))"

definition Save :: "nat \<Rightarrow> deps \<Rightarrow> any \<Rightarrow> Options \<Rightarrow> (error + string \<times> FieldMeta list) option" where
  "Save d ext tree opts =
     (case SaveTree d ext tree opts of
        None \<Rightarrow> None
      | Some (Inl err) \<Rightarrow> Some (Inl err)
      | Some (Inr (encryptedTree, fs)) \<Rightarrow>
          (case toml_Encode ext encryptedTree of
             Inl err \<Rightarrow> Some (Inl (Wrap ''failed to marshal TOML'' err))
           | Inr tomlData \<Rightarrow> Some (Inr (tomlData, fs))))"


section \<open>Notions used to state the properties\<close>

text \<open>
  The nesting depth of a tree, the list of nodes of a tree together with the path and key
  with which the walker visits each of them, and positions in a tree: a position is a list
  of map keys and sequence indices, \<open>node_at\<close> is the node at a position, and \<open>visitArgs\<close>
  computes, as \<open>walkMap\<close> and \<open>walkSlice\<close> do, the path and key passed for it.
\<close>

fun depth :: "any \<Rightarrow> nat"
  and depthMap :: "(string \<times> any) list \<Rightarrow> nat"
  and depthSlice :: "any list \<Rightarrow> nat" where
  "depth (AMap m) = Suc (depthMap m)"
| "depth (ASlice s) = Suc (depthSlice s)"
| "depth v = 0"
| "depthMap [] = 0"
| "depthMap ((k, v) # m) = max (depth v) (depthMap m)"
| "depthSlice [] = 0"
| "depthSlice (v # s) = max (depth v) (depthSlice s)"

fun visited :: "string list \<Rightarrow> string \<Rightarrow> any \<Rightarrow> (string list \<times> string \<times> any) list"
  and visitedMap :: "string list \<Rightarrow> (string \<times> any) list \<Rightarrow> (string list \<times> string \<times> any) list"
  and visitedSlice :: "string list \<Rightarrow> nat \<Rightarrow> any list \<Rightarrow> (string list \<times> string \<times> any) list" where
  "visited path key (AMap m) = (path, key, AMap m) # visitedMap (currentPath path key) m"
| "visited path key (ASlice s) = (path, key, ASlice s) # visitedSlice (currentPath path key) 0 s"
| "visited path key v = [(path, key, v)]"
| "visitedMap cp [] = []"
| "visitedMap cp ((k, v) # m) = visited cp k v @ visitedMap cp m"
| "visitedSlice cp i [] = []"
| "visitedSlice cp i (v # s) = visited cp (indexKey i) v @ visitedSlice cp (Suc i) s"

datatype seg = Key string | Index nat

fun child_at :: "any \<Rightarrow> seg \<Rightarrow> any option" where
  "child_at (AMap m) (Key k) = map_of m k"
| "child_at (ASlice s) (Index i) = (if i < length s then Some (s ! i) else None)"
| "child_at v sg = None"

fun node_at :: "any \<Rightarrow> seg list \<Rightarrow> any option" where
  "node_at v [] = Some v"
| "node_at v (sg # pos) = (case child_at v sg of None \<Rightarrow> None | Some c \<Rightarrow> node_at c pos)"

fun segKey :: "seg \<Rightarrow> string" where
  "segKey (Key k) = k"
| "segKey (Index i) = indexKey i"

fun visitArgs :: "string list \<Rightarrow> string \<Rightarrow> seg list \<Rightarrow> string list \<times> string" where
  "visitArgs path key [] = (path, key)"
| "visitArgs path key (sg # pos) = visitArgs (currentPath path key) (segKey sg) pos"


text \<open>The shape of a tree: its map keys and sequence lengths at every position.\<close>

datatype shape = Leaf | Seq "shape list" | Table "(string \<times> shape) list"

fun shape_of :: "any \<Rightarrow> shape"
  and shape_of_map :: "(string \<times> any) list \<Rightarrow> (string \<times> shape) list"
  and shape_of_slice :: "any list \<Rightarrow> shape list" where
  "shape_of (AMap m) = Table (shape_of_map m)"
| "shape_of (ASlice s) = Seq (shape_of_slice s)"
| "shape_of v = Leaf"
| "shape_of_map [] = []"
| "shape_of_map ((k, v) # m) = (k, shape_of v) # shape_of_map m"
| "shape_of_slice [] = []"
| "shape_of_slice (v # s) = shape_of v # shape_of_slice s"

text \<open>
  The specification's wording of ciphertext detection: a string in which the begin marker
  occurs before the end marker.  \<open>occurs_at substr s i\<close>: \<open>substr\<close> occurs in \<open>s\<close> at offset \<open>i\<close>.
\<close>

definition occurs_at :: "string \<Rightarrow> string \<Rightarrow> nat \<Rightarrow> bool" where
  "occurs_at substr s i = (i + length substr \<le> length s \<and> take (length substr) (drop i s) = substr)"

definition markers_in_order :: "any \<Rightarrow> bool" where
  "markers_in_order val =
     (case val of
        AString s \<Rightarrow>
          list_ex (\<lambda>j. occurs_at endMarker s j \<and> list_ex (\<lambda>i. occurs_at beginMarker s i) [0..<j])
            [0..<Suc (length s)]
      | _ \<Rightarrow> False)"

text \<open>
  A visitor keeps the shape at a node when it returns a container unchanged and returns a
  leaf for a leaf.
\<close>

definition keeps_shape :: "'s VisitFunc \<Rightarrow> string list \<times> string \<times> any \<Rightarrow> bool" where
  "keeps_shape visit n =
     (case n of (p, k, y) \<Rightarrow>
        \<forall>st. (is_container y \<longrightarrow> fst (fst (visit p k y st)) = y) \<and>
             (\<not> is_container y \<longrightarrow> \<not> is_container (fst (fst (visit p k y st)))))"

text \<open>
  A visitor keeps the value at a node when it returns the value it was given.
\<close>

definition keeps_value :: "'s VisitFunc \<Rightarrow> string list \<times> string \<times> any \<Rightarrow> bool" where
  "keeps_value visit n = (case n of (p, k, y) \<Rightarrow> \<forall>st. fst (fst (visit p k y st)) = y)"

text \<open>The string leaves of a tree.\<close>

fun strings_of :: "any \<Rightarrow> string list"
  and strings_of_map :: "(string \<times> any) list \<Rightarrow> string list"
  and strings_of_slice :: "any list \<Rightarrow> string list" where
  "strings_of (AMap m) = strings_of_map m"
| "strings_of (ASlice s) = strings_of_slice s"
| "strings_of (AString str) = [str]"
| "strings_of v = []"
| "strings_of_map [] = []"
| "strings_of_map ((k, v) # m) = strings_of v @ strings_of_map m"
| "strings_of_slice [] = []"
| "strings_of_slice (v # s) = strings_of v @ strings_of_slice s"

text \<open>
  \<open>reaches visit path key v pos\<close>: the walk that starts at \<open>v\<close> (visited with \<open>path\<close> and
  \<open>key\<close>) gets to the position \<open>pos\<close>, because the visitor returns every node above \<open>pos\<close>
  unchanged and asks to continue.
\<close>

fun reaches :: "'s VisitFunc \<Rightarrow> string list \<Rightarrow> string \<Rightarrow> any \<Rightarrow> seg list \<Rightarrow> bool" where
  "reaches visit path key v [] = True"
| "reaches visit path key v (sg # pos) =
     ((\<forall>st. fst (visit path key v st) = (v, True)) \<and>
      (case child_at v sg of
         None \<Rightarrow> False
       | Some c \<Rightarrow> reaches visit (currentPath path key) (segKey sg) c pos))"

text \<open>
  The bytes that the visitor of \<open>Save\<close> hands to \<open>Encrypt\<close> for a value: the string itself, or
  its JSON encoding.
\<close>

definition dataToEncrypt :: "deps \<Rightarrow> any \<Rightarrow> error + string" where
  "dataToEncrypt ext val = (case val of AString strValue \<Rightarrow> Inr strValue | _ \<Rightarrow> json_Marshal ext val)"

text \<open>
  The value that the visitor of \<open>Load\<close> returns for a value, and what remains of a walk once
  the visitor has returned \<open>u\<close>: the loop over the children of \<open>u\<close>.
\<close>

definition loadValue :: "deps \<Rightarrow> Identity list \<Rightarrow> any \<Rightarrow> any" where
  "loadValue ext ids v =
     (case armoredString v of
        Some c \<Rightarrow> (case Decrypt ext c ids of Inl err \<Rightarrow> v | Inr b \<Rightarrow> decodeJSON ext b)
      | None \<Rightarrow> v)"

definition rest_returns :: "'s VisitFunc \<Rightarrow> any \<Rightarrow> bool" where
  "rest_returns visit u =
     (case u of
        AMap m \<Rightarrow> \<exists>d. \<forall>cp st. \<exists>r. walkMapLoop (walkValue d visit) cp m st = Some r
      | ASlice s \<Rightarrow> \<exists>d. \<forall>cp i st. \<exists>r. walkSliceLoop (walkValue d visit) cp i s st = Some r
      | _ \<Rightarrow> True)"

text \<open>
  The field infos that \<open>FindFields\<close> collects from a list of visited nodes, and the
  properties of a node that the path round trip depends on: a Go map has no key twice and
  a Go slice has fewer than \<open>2 ^ 63\<close> elements (\<open>go_node\<close>); no map or sequence is stored
  under the empty key (\<open>named_children\<close>).
\<close>

definition found :: "(string list \<Rightarrow> string \<Rightarrow> any \<Rightarrow> bool) \<Rightarrow> (string list \<times> string \<times> any) list
    \<Rightarrow> FieldInfo list" where
  "found predicate ns =
     map (\<lambda>(p, k, y). \<lparr>Path_fi = p @ [k], Key_fi = k, Value_fi = y\<rparr>)
       (filter (\<lambda>(p, k, y). predicate p k y) ns)"

definition go_node :: "string list \<times> string \<times> any \<Rightarrow> bool" where
  "go_node n =
     (case n of (p, k, y) \<Rightarrow>
        (case y of
           AMap m \<Rightarrow> distinct (map fst m)
         | ASlice s \<Rightarrow> length s < 2 ^ 63
         | _ \<Rightarrow> True))"

definition named_children :: "string list \<times> string \<times> any \<Rightarrow> bool" where
  "named_children n =
     (case n of (p, k, y) \<Rightarrow>
        (case y of
           AMap m \<Rightarrow> list_all (\<lambda>(k', c). is_container c \<longrightarrow> k' \<noteq> []) m
         | _ \<Rightarrow> True))"

text \<open>
  \<open>addressed base v n\<close>: the full path of the visited node \<open>n\<close> (its visit path with its key
  appended) is \<open>base\<close> followed by a path that \<open>GetValue\<close> resolves in \<open>v\<close> to the node's value.
\<close>

definition addressed :: "string list \<Rightarrow> any \<Rightarrow> string list \<times> string \<times> any \<Rightarrow> bool" where
  "addressed base v n =
     (case n of (p, k, y) \<Rightarrow> \<exists>rel. p @ [k] = base @ rel \<and> GetValue v rel = (y, True))"

text \<open>
  Predicates for \<open>FindFields\<close>: every node that the walker treats as a leaf, and every node.
  A visitor that only records the path and the key it is called with.
\<close>

definition leafField :: "string list \<Rightarrow> string \<Rightarrow> any \<Rightarrow> bool" where
  "leafField path key val = IsScalarValue val"

definition anyField :: "string list \<Rightarrow> string \<Rightarrow> any \<Rightarrow> bool" where
  "anyField path key val = True"

definition recordVisit :: "(string list \<times> string) list VisitFunc" where
  "recordVisit path key val calls = ((val, True), calls @ [(path, key)])"

text \<open>
  What the round trip needs of a node of the tree, visited with path \<open>p\<close> and key \<open>k\<close>: the
  node is a string, a map or a sequence; a string is not itself recognised as ciphertext
  and, when the policy selects it, is not a JSON text; a map or sequence that the policy
  selects is read back by \<open>json.Unmarshal\<close> from what \<open>json.Marshal\<close> wrote.
\<close>

definition roundtrip_node :: "deps \<Rightarrow> Options \<Rightarrow> string list \<times> string \<times> any \<Rightarrow> bool" where
  "roundtrip_node ext opts n =
     (case n of (p, k, y) \<Rightarrow>
        (case y of
           AString s \<Rightarrow>
             \<not> isArmoredData s \<and> (shouldEncryptField opts p k y \<longrightarrow> isl (json_Unmarshal ext s))
         | AMap m \<Rightarrow>
             (shouldEncryptField opts p k y \<longrightarrow>
                (case json_Marshal ext y of Inl err \<Rightarrow> True | Inr b \<Rightarrow> json_Unmarshal ext b = Inr y))
         | ASlice s \<Rightarrow>
             (shouldEncryptField opts p k y \<longrightarrow>
                (case json_Marshal ext y of Inl err \<Rightarrow> True | Inr b \<Rightarrow> json_Unmarshal ext b = Inr y))
         | _ \<Rightarrow> False))"

section \<open>Stand-ins for the external collaborators\<close>

text \<open>
  Concrete collaborators, used to run the model on examples.  The sealing stand-in writes
  the key of the first recipient, the number of the draw and the plaintext between the
  armor markers; the opening stand-in accepts an identity carrying that key.  Like age, it
  refuses a passphrase recipient next to other recipients.  The JSON and TOML stand-ins
  agree with the real codecs on the few texts and values that the examples pass to them.
\<close>

definition LF :: char where
  "LF = CHR 0x0A"

definition sample_armor :: "string \<Rightarrow> nat \<Rightarrow> string \<Rightarrow> string" where
  "sample_armor key draw data =
     beginMarker @ [LF] @ key @ ''#'' @ itoa draw @ '':'' @ data @ [LF] @ endMarker @ [LF]"

definition sample_seal :: "nat \<Rightarrow> string \<Rightarrow> Recipient list \<Rightarrow> error + string" where
  "sample_seal draw data recipients =
     (if 1 < length recipients \<and> HasPassphraseRecipient recipients
      then Inl (External ''an ScryptRecipient must be the only one for the file'')
      else (case recipients of
              X25519Recipient key # rs \<Rightarrow> Inr (sample_armor key draw data)
            | _ \<Rightarrow> Inl (External ''recipient not covered by the stand-in'')))"

definition sample_open :: "string \<Rightarrow> Identity list \<Rightarrow> error + string" where
  "sample_open armored identities =
     (if take (Suc (length beginMarker)) armored \<noteq> beginMarker @ [LF]
      then Inl (External ''malformed armor'')
      else let body = drop (Suc (length beginMarker)) armored;
               key = takeWhile (\<lambda>c. c \<noteq> CHR ''#'') body;
               rest = drop 1 (dropWhile (\<lambda>c. c \<noteq> CHR '':'') body);
               data = take (length rest - (length endMarker + 2)) rest
           in if X25519Identity key \<in> set identities then Inr data
              else Inl (External ''no identity matched any of the recipients''))"

definition sample_armored :: string where
  "sample_armored = sample_armor ''k1'' 0 ''secret123''"

definition sample_armored2 :: string where
  "sample_armored2 = sample_armor ''k2'' 0 ''tok''"

definition sample_host_json :: string where
  \<open>sample_host_json = ''{"host":"localhost"}''\<close>

definition sample_key_json :: string where
  \<open>sample_key_json =
     ''{"private_key":"'' @ beginMarker @ [CHR 0x5C, CHR ''n''] @ ''k1#0:secret123'' @
     [CHR 0x5C, CHR ''n''] @ endMarker @ [CHR 0x5C, CHR ''n''] @ ''"}''\<close>

definition sample_json_Unmarshal :: "string \<Rightarrow> error + any" where
  "sample_json_Unmarshal s =
     (if s = ''42'' then Inr (AFloat 0x4045000000000000)
      else if s = sample_host_json then Inr (AMap [(''host'', AString ''localhost'')])
      else Inl (External ''invalid character''))"

definition sample_json_Marshal :: "any \<Rightarrow> error + string" where
  "sample_json_Marshal v =
     (if v = AMap [(''host'', AString ''localhost'')] then Inr sample_host_json
      else if v = AMap [(''private_key'', AString sample_armored)] then Inr sample_key_json
      else if v = AFloat 0x7FF8000000000001 then Inl (External ''json: unsupported value: NaN'')
      else Inl (External ''value not covered by the stand-in''))"

definition sample_tree :: "(string \<times> any) list" where
  "sample_tree =
     [(''username'', AString ''alice''),
      (''private_password'', AString sample_armored),
      (''private_token'', AString sample_armored2)]"

definition sample_doc :: string where
  \<open>sample_doc =
     ''username = "alice"'' @ [LF] @
     ''private_password = """'' @ [LF] @ sample_armored @ ''"""'' @ [LF] @
     ''private_token = """'' @ [LF] @ sample_armored2 @ ''"""'' @ [LF]\<close>

definition sample_deps :: deps where
  "sample_deps =
     \<lparr>loadIdentitiesFromFile = (\<lambda>f. Inl (External ''open: no such file or directory'')),
      loadRecipientsFromFile = (\<lambda>f. Inl (External ''open: no such file or directory'')),
      ParseX25519Identity = (\<lambda>str. Inr (X25519Identity str)),
      ParseX25519Recipient = (\<lambda>str. Inr (X25519Recipient str)),
      NewScryptIdentity = (\<lambda>p. Inr (ScryptIdentity p)),
      NewScryptRecipient = (\<lambda>p. Inr (ScryptRecipient p)),
      age_seal = sample_seal,
      age_open = sample_open,
      json_Marshal = sample_json_Marshal,
      json_Unmarshal = sample_json_Unmarshal,
      toml_Unmarshal = (\<lambda>data. if data = sample_doc then Inr sample_tree
                                else Inl (External ''toml: document not covered by the stand-in'')),
      toml_Encode = (\<lambda>t. if t = AMap sample_tree then Inr sample_doc
                           else Inl (External ''toml: tree not covered by the stand-in''))\<rparr>"

definition sample_keys :: "string list \<Rightarrow> string list \<Rightarrow> KeySources" where
  "sample_keys ids rcps =
     \<lparr>IdentitiesFile = [], IdentitiesData = ids, RecipientsFile = [], Recipients = rcps,
      PassphraseProvider = None\<rparr>"

definition sample_opts :: "string list \<Rightarrow> string list \<Rightarrow> Options" where
  "sample_opts ids rcps =
     \<lparr>Keys = sample_keys ids rcps, PrivatePrefix = [], ShouldEncrypt = None, EmitASCIIQR = False,
      QRCommentPrefix = [], Indent = []\<rparr>"

text \<open>Options whose key sources also carry a passphrase provider.\<close>

definition sample_opts_passphrase :: Options where
  "sample_opts_passphrase =
     \<lparr>Keys = \<lparr>IdentitiesFile = [], IdentitiesData = [], RecipientsFile = [], Recipients = [''k1''],
              PassphraseProvider = Some (Inr ''hunter2'')\<rparr>,
      PrivatePrefix = [], ShouldEncrypt = None, EmitASCIIQR = False,
      QRCommentPrefix = [], Indent = []\<rparr>"

text \<open>Trees used in the examples.\<close>

definition plain_tree :: "(string \<times> any) list" where
  "plain_tree =
     [(''username'', AString ''alice''),
      (''private_password'', AString ''secret123''),
      (''private_db'', AMap [(''host'', AString ''localhost'')])]"

definition nested_tree :: any where
  "nested_tree = AMap [(''private_db'', AMap [(''private_key'', AString sample_armored)])]"

definition servers_tree :: any where
  "servers_tree =
     AMap [(''servers'', ASlice [AMap [(''name'', AString ''prod'')]]),
           (''username'', AString ''alice'')]"

definition empty_key_tree :: any where
  "empty_key_tree = AMap [([], AMap [(''a'', AString ''x'')])]"

section \<open>The walker: more depth never hurts\<close>

lemma walkMapLoop_mono:
  assumes "\<And>p k v st r. w p k v st = Some r \<Longrightarrow> w' p k v st = Some r"
  shows "walkMapLoop w cp m st = Some r \<Longrightarrow> walkMapLoop w' cp m st = Some r"
proof (induction m arbitrary: st r)
  case Nil
  then show ?case by simp
next
  case (Cons kv m)
  obtain k v where kv: "kv = (k, v)" by (cases kv)
  from Cons.prems obtain nv st1 res st2 where
    a: "w cp k v st = Some (nv, st1)" and b: "walkMapLoop w cp m st1 = Some (res, st2)"
    and r: "r = ((k, nv) # res, st2)"
    by (auto simp: kv split: option.splits)
  from a have "w' cp k v st = Some (nv, st1)" by (rule assms)
  moreover from b have "walkMapLoop w' cp m st1 = Some (res, st2)" by (rule Cons.IH)
  ultimately show ?case by (simp add: kv r)
qed

lemma walkSliceLoop_mono:
  assumes "\<And>p k v st r. w p k v st = Some r \<Longrightarrow> w' p k v st = Some r"
  shows "walkSliceLoop w cp i s st = Some r \<Longrightarrow> walkSliceLoop w' cp i s st = Some r"
proof (induction s arbitrary: i st r)
  case Nil
  then show ?case by simp
next
  case (Cons v s)
  from Cons.prems obtain nv st1 res st2 where
    a: "w cp (indexKey i) v st = Some (nv, st1)"
    and b: "walkSliceLoop w cp (Suc i) s st1 = Some (res, st2)"
    and r: "r = (nv # res, st2)"
    by (auto split: option.splits)
  from a have "w' cp (indexKey i) v st = Some (nv, st1)" by (rule assms)
  moreover from b have "walkSliceLoop w' cp (Suc i) s st1 = Some (res, st2)" by (rule Cons.IH)
  ultimately show ?case by (simp add: r)
qed

lemma walkValue_Suc_mono:
  "walkValue d visit p k v st = Some r \<Longrightarrow> walkValue (Suc d) visit p k v st = Some r"
proof (induction d arbitrary: p k v st r)
  case 0
  then show ?case by simp
next
  case (Suc d)
  have step: "\<And>p k v st r. walkValue d visit p k v st = Some r
      \<Longrightarrow> walkValue (Suc d) visit p k v st = Some r"
    by (rule Suc.IH)
  obtain nv cont st1 where vis: "visit p k v st = ((nv, cont), st1)"
    by (metis prod.exhaust)
  show ?case
  proof (cases "cont")
    case False
    with Suc.prems vis show ?thesis by simp
  next
    case True
    show ?thesis
    proof (cases nv)
      case (AMap m)
      with Suc.prems vis True obtain res st2 where
        l: "walkMapLoop (walkValue d visit) (currentPath p k) m st1 = Some (res, st2)"
        and r: "r = (AMap res, st2)"
        by (auto simp: walkMap_def split: option.splits)
      from walkMapLoop_mono[where w="walkValue d visit" and w'="walkValue (Suc d) visit", OF step l]
      show ?thesis using vis True AMap r by (simp add: walkMap_def)
    next
      case (ASlice s)
      with Suc.prems vis True obtain res st2 where
        l: "walkSliceLoop (walkValue d visit) (currentPath p k) 0 s st1 = Some (res, st2)"
        and r: "r = (ASlice res, st2)"
        by (auto simp: walkSlice_def split: option.splits)
      from walkSliceLoop_mono[where w="walkValue d visit" and w'="walkValue (Suc d) visit", OF step l]
      show ?thesis using vis True ASlice r by (simp add: walkSlice_def)
    qed (use Suc.prems vis True in auto)
  qed
qed

lemma walkValue_mono:
  "walkValue d visit p k v st = Some r \<Longrightarrow> d \<le> d' \<Longrightarrow> walkValue d' visit p k v st = Some r"
proof (induction d' arbitrary: d)
  case 0
  then show ?case by simp
next
  case (Suc d')
  show ?case
  proof (cases "d = Suc d'")
    case True
    with Suc.prems show ?thesis by simp
  next
    case False
    with Suc.prems have "d \<le> d'" by simp
    with Suc.prems Suc.IH have "walkValue d' visit p k v st = Some r" by blast
    then show ?thesis by (rule walkValue_Suc_mono)
  qed
qed


subsection \<open>Visitors that keep or shrink\<close>

lemma walkValue_unfold:
  assumes "visit p k v st = ((nv, c), st1)"
  shows "walkValue (Suc d) visit p k v st =
     (if \<not> c then Some (nv, st1)
      else (case nv of
              AMap m \<Rightarrow> walkMap (walkValue d visit) p k m st1
            | ASlice s \<Rightarrow> walkSlice (walkValue d visit) p k s st1
            | _ \<Rightarrow> Some (nv, st1)))"
  using assms by simp

lemma walkValue_leaf:
  assumes "visit p k v st = ((nv, c), st1)" and "\<not> is_container nv"
  shows "walkValue (Suc d) visit p k v st = Some (nv, st1)"
  using assms by (cases nv) auto

lemma leaf_returns:
  fixes visit :: "'s VisitFunc"
  assumes ne: "\<And>p k y st. fst (fst (visit p k y st)) = y \<or> \<not> is_container (fst (fst (visit p k y st)))"
    and leaf: "\<not> is_container v"
  shows "\<forall>d p k (st::'s). depth v < d \<longrightarrow> (\<exists>r. walkValue d visit p k v st = Some r)"
proof (intro allI impI)
  fix d p k and st :: 's
  assume "depth v < d"
  then obtain d0 where d: "d = Suc d0" by (cases d) auto
  obtain nv c st1 where vis: "visit p k v st = ((nv, c), st1)"
    by (metis prod.exhaust)
  from ne[of p k v st] vis leaf have "\<not> is_container nv" by auto
  then show "\<exists>r. walkValue d visit p k v st = Some r"
    using walkValue_leaf[where visit=visit, OF vis] d by simp
qed

lemma walk_returns:
  fixes visit :: "'s VisitFunc"
  assumes ne: "\<And>p k y st. fst (fst (visit p k y st)) = y \<or> \<not> is_container (fst (fst (visit p k y st)))"
  shows "(\<forall>d p k (st::'s). depth v < d \<longrightarrow> (\<exists>r. walkValue d visit p k v st = Some r))"
    and "(\<forall>d cp (st::'s). depthMap m < d \<longrightarrow> (\<exists>r. walkMapLoop (walkValue d visit) cp m st = Some r))"
    and "(\<forall>d cp i (st::'s). depthSlice s < d \<longrightarrow> (\<exists>r. walkSliceLoop (walkValue d visit) cp i s st = Some r))"
proof (induction v and m and s rule: depth_depthMap_depthSlice.induct)
  case (1 m)
  show ?case
  proof (intro allI impI)
    fix d p k and st :: 's
    assume "depth (AMap m) < d"
    then obtain d0 where d: "d = Suc d0" and dm: "depthMap m < d0"
      by (cases d) auto
    obtain nv c st1 where vis: "visit p k (AMap m) st = ((nv, c), st1)"
      by (metis prod.exhaust)
    from ne[of p k "AMap m" st] vis have "nv = AMap m \<or> \<not> is_container nv" by simp
    then show "\<exists>r. walkValue d visit p k (AMap m) st = Some r"
    proof
      assume nv: "nv = AMap m"
      from 1 dm obtain r where "walkMapLoop (walkValue d0 visit) (currentPath p k) m st1 = Some r"
        by blast
      then show ?thesis
        using vis nv d by (cases r) (simp add: walkMap_def)
    next
      assume "\<not> is_container nv"
      then show ?thesis using walkValue_leaf[where visit=visit, OF vis] d by simp
    qed
  qed
next
  case (2 s)
  show ?case
  proof (intro allI impI)
    fix d p k and st :: 's
    assume "depth (ASlice s) < d"
    then obtain d0 where d: "d = Suc d0" and dm: "depthSlice s < d0"
      by (cases d) auto
    obtain nv c st1 where vis: "visit p k (ASlice s) st = ((nv, c), st1)"
      by (metis prod.exhaust)
    from ne[of p k "ASlice s" st] vis have "nv = ASlice s \<or> \<not> is_container nv" by simp
    then show "\<exists>r. walkValue d visit p k (ASlice s) st = Some r"
    proof
      assume nv: "nv = ASlice s"
      from 2 dm obtain r where "walkSliceLoop (walkValue d0 visit) (currentPath p k) 0 s st1 = Some r"
        by blast
      then show ?thesis
        using vis nv d by (cases r) (simp add: walkSlice_def)
    next
      assume "\<not> is_container nv"
      then show ?thesis using walkValue_leaf[where visit=visit, OF vis] d by simp
    qed
  qed
next
  case 4
  show ?case by simp
next
  case (5 k v m)
  show ?case
  proof (intro allI impI)
    fix d cp and st :: 's
    assume "depthMap ((k, v) # m) < d"
    then have dv: "depth v < d" and dm: "depthMap m < d" by auto
    from 5(1) dv obtain nv st1 where a: "walkValue d visit cp k v st = Some (nv, st1)"
      by (metis prod.exhaust)
    from 5(2) dm obtain r where b: "walkMapLoop (walkValue d visit) cp m st1 = Some r"
      by blast
    show "\<exists>r. walkMapLoop (walkValue d visit) cp ((k, v) # m) st = Some r"
      using a b by (cases r) simp
  qed
next
  case 6
  show ?case by simp
next
  case (7 v s)
  show ?case
  proof (intro allI impI)
    fix d cp i and st :: 's
    assume "depthSlice (v # s) < d"
    then have dv: "depth v < d" and dm: "depthSlice s < d" by auto
    from 7(1) dv obtain nv st1 where a: "walkValue d visit cp (indexKey i) v st = Some (nv, st1)"
      by (metis prod.exhaust)
    from 7(2) dm obtain r where b: "walkSliceLoop (walkValue d visit) cp (Suc i) s st1 = Some r"
      by blast
    show "\<exists>r. walkSliceLoop (walkValue d visit) cp i (v # s) st = Some r"
      using a b by (cases r) simp
  qed
qed (rule leaf_returns[OF ne], simp)+


lemma visited_leaf: "\<not> is_container v \<Longrightarrow> visited p k v = [(p, k, v)]"
  by (cases v) auto

lemma depth_leaf: "\<not> is_container v \<Longrightarrow> depth v = 0"
  by (cases v) auto

lemma shape_leaf: "\<not> is_container v \<Longrightarrow> shape_of v = Leaf"
  by (cases v) auto

lemma leaf_shape:
  fixes visit :: "'s VisitFunc"
  assumes leaf: "\<not> is_container v"
  shows "(\<forall>n \<in> set (visited path key v). keeps_shape visit n) \<longrightarrow>
      (\<forall>d (st::'s). depth v < d \<longrightarrow>
         (\<exists>v' st'. walkValue d visit path key v st = Some (v', st') \<and> shape_of v' = shape_of v))"
proof (intro allI impI)
  fix d and st :: 's
  assume H: "\<forall>n \<in> set (visited path key v). keeps_shape visit n" and "depth v < d"
  then obtain d0 where d: "d = Suc d0" by (cases d) auto
  obtain nv c st1 where vis: "visit path key v st = ((nv, c), st1)"
    by (metis prod.exhaust)
  from H leaf have "keeps_shape visit (path, key, v)" by (simp add: visited_leaf)
  with leaf vis have nc: "\<not> is_container nv"
    unfolding keeps_shape_def by (auto dest: spec[where x=st])
  then have "walkValue d visit path key v st = Some (nv, st1)"
    using walkValue_leaf[where visit=visit, OF vis] d by simp
  moreover have "shape_of nv = shape_of v" using nc leaf by (simp add: shape_leaf)
  ultimately show "\<exists>v' st'. walkValue d visit path key v st = Some (v', st') \<and> shape_of v' = shape_of v"
    by blast
qed

lemma walk_shape:
  fixes visit :: "'s VisitFunc"
  shows "(\<forall>n \<in> set (visited path key v). keeps_shape visit n) \<longrightarrow>
      (\<forall>d (st::'s). depth v < d \<longrightarrow>
         (\<exists>v' st'. walkValue d visit path key v st = Some (v', st') \<and> shape_of v' = shape_of v))"
    and "(\<forall>n \<in> set (visitedMap cp m). keeps_shape visit n) \<longrightarrow>
      (\<forall>d (st::'s). depthMap m < d \<longrightarrow>
         (\<exists>m' st'. walkMapLoop (walkValue d visit) cp m st = Some (m', st') \<and>
            shape_of_map m' = shape_of_map m))"
    and "(\<forall>n \<in> set (visitedSlice cp i s). keeps_shape visit n) \<longrightarrow>
      (\<forall>d (st::'s). depthSlice s < d \<longrightarrow>
         (\<exists>s' st'. walkSliceLoop (walkValue d visit) cp i s st = Some (s', st') \<and>
            shape_of_slice s' = shape_of_slice s))"
proof (induction path key v and cp m and cp i s rule: visited_visitedMap_visitedSlice.induct)
  case (1 path key m)
  show ?case
  proof (intro allI impI)
    fix d and st :: 's
    assume H: "\<forall>n \<in> set (visited path key (AMap m)). keeps_shape visit n"
      and "depth (AMap m) < d"
    then obtain d0 where d: "d = Suc d0" and dm: "depthMap m < d0"
      by (cases d) auto
    obtain nv c st1 where vis: "visit path key (AMap m) st = ((nv, c), st1)"
      by (metis prod.exhaust)
    from H have "keeps_shape visit (path, key, AMap m)" by simp
    with vis have nv: "nv = AMap m"
      unfolding keeps_shape_def by (auto dest: spec[where x=st])
    from H have "\<forall>n \<in> set (visitedMap (currentPath path key) m). keeps_shape visit n" by simp
    with 1 dm obtain m' st' where
      l: "walkMapLoop (walkValue d0 visit) (currentPath path key) m st1 = Some (m', st')"
      and sh: "shape_of_map m' = shape_of_map m"
      by blast
    show "\<exists>v' st'. walkValue d visit path key (AMap m) st = Some (v', st') \<and>
        shape_of v' = shape_of (AMap m)"
    proof (cases c)
      case True
      then have "walkValue d visit path key (AMap m) st = Some (AMap m', st')"
        using vis nv d l by (simp add: walkMap_def)
      then show ?thesis using sh by simp
    next
      case False
      then have "walkValue d visit path key (AMap m) st = Some (AMap m, st1)"
        using vis nv d by simp
      then show ?thesis by simp
    qed
  qed
next
  case (2 path key s)
  show ?case
  proof (intro allI impI)
    fix d and st :: 's
    assume H: "\<forall>n \<in> set (visited path key (ASlice s)). keeps_shape visit n"
      and "depth (ASlice s) < d"
    then obtain d0 where d: "d = Suc d0" and dm: "depthSlice s < d0"
      by (cases d) auto
    obtain nv c st1 where vis: "visit path key (ASlice s) st = ((nv, c), st1)"
      by (metis prod.exhaust)
    from H have "keeps_shape visit (path, key, ASlice s)" by simp
    with vis have nv: "nv = ASlice s"
      unfolding keeps_shape_def by (auto dest: spec[where x=st])
    from H have "\<forall>n \<in> set (visitedSlice (currentPath path key) 0 s). keeps_shape visit n" by simp
    with 2 dm obtain s' st' where
      l: "walkSliceLoop (walkValue d0 visit) (currentPath path key) 0 s st1 = Some (s', st')"
      and sh: "shape_of_slice s' = shape_of_slice s"
      by blast
    show "\<exists>v' st'. walkValue d visit path key (ASlice s) st = Some (v', st') \<and>
        shape_of v' = shape_of (ASlice s)"
    proof (cases c)
      case True
      then have "walkValue d visit path key (ASlice s) st = Some (ASlice s', st')"
        using vis nv d l by (simp add: walkSlice_def)
      then show ?thesis using sh by simp
    next
      case False
      then have "walkValue d visit path key (ASlice s) st = Some (ASlice s, st1)"
        using vis nv d by simp
      then show ?thesis by simp
    qed
  qed
next
  case (4 cp)
  show ?case by simp
next
  case (5 cp k v m)
  show ?case
  proof (intro allI impI)
    fix d and st :: 's
    assume H: "\<forall>n \<in> set (visitedMap cp ((k, v) # m)). keeps_shape visit n"
      and "depthMap ((k, v) # m) < d"
    then have dv: "depth v < d" and dm: "depthMap m < d" by auto
    from H have Hv: "\<forall>n \<in> set (visited cp k v). keeps_shape visit n"
      and Hm: "\<forall>n \<in> set (visitedMap cp m). keeps_shape visit n" by auto
    from 5(1) Hv dv obtain v' st1 where
      a: "walkValue d visit cp k v st = Some (v', st1)" and sv: "shape_of v' = shape_of v"
      by blast
    from 5(2) Hm dm obtain m' st2 where
      b: "walkMapLoop (walkValue d visit) cp m st1 = Some (m', st2)"
      and sm: "shape_of_map m' = shape_of_map m"
      by blast
    show "\<exists>m' st'. walkMapLoop (walkValue d visit) cp ((k, v) # m) st = Some (m', st') \<and>
        shape_of_map m' = shape_of_map ((k, v) # m)"
      using a b sv sm by simp
  qed
next
  case (6 cp i)
  show ?case by simp
next
  case (7 cp i v s)
  show ?case
  proof (intro allI impI)
    fix d and st :: 's
    assume H: "\<forall>n \<in> set (visitedSlice cp i (v # s)). keeps_shape visit n"
      and "depthSlice (v # s) < d"
    then have dv: "depth v < d" and dm: "depthSlice s < d" by auto
    from H have Hv: "\<forall>n \<in> set (visited cp (indexKey i) v). keeps_shape visit n"
      and Hm: "\<forall>n \<in> set (visitedSlice cp (Suc i) s). keeps_shape visit n" by auto
    from 7(1) Hv dv obtain v' st1 where
      a: "walkValue d visit cp (indexKey i) v st = Some (v', st1)" and sv: "shape_of v' = shape_of v"
      by blast
    from 7(2) Hm dm obtain s' st2 where
      b: "walkSliceLoop (walkValue d visit) cp (Suc i) s st1 = Some (s', st2)"
      and sm: "shape_of_slice s' = shape_of_slice s"
      by blast
    show "\<exists>s' st'. walkSliceLoop (walkValue d visit) cp i (v # s) st = Some (s', st') \<and>
        shape_of_slice s' = shape_of_slice (v # s)"
      using a b sv sm by simp
  qed
qed (rule leaf_shape, simp)+


subsection \<open>What happens at a position\<close>

lemma walkMapLoop_obs:
  assumes wmono: "\<And>p k v s r s'. w p k v s = Some (r, s') \<Longrightarrow> obs s \<subseteq> obs s'"
  shows "walkMapLoop w cp m st = Some (m', st') \<Longrightarrow> obs st \<subseteq> obs st'"
proof (induction m arbitrary: st m' st')
  case Nil
  then show ?case by simp
next
  case (Cons kv m)
  obtain k v where kv: "kv = (k, v)" by (cases kv)
  from Cons.prems obtain nv st1 res where
    a: "w cp k v st = Some (nv, st1)" and b: "walkMapLoop w cp m st1 = Some (res, st')"
    by (auto simp: kv split: option.splits)
  from wmono[OF a] Cons.IH[OF b] show ?case by blast
qed

lemma walkSliceLoop_obs:
  assumes wmono: "\<And>p k v s r s'. w p k v s = Some (r, s') \<Longrightarrow> obs s \<subseteq> obs s'"
  shows "walkSliceLoop w cp i s st = Some (s', st') \<Longrightarrow> obs st \<subseteq> obs st'"
proof (induction s arbitrary: i st s' st')
  case Nil
  then show ?case by simp
next
  case (Cons v s)
  from Cons.prems obtain nv st1 res where
    a: "w cp (indexKey i) v st = Some (nv, st1)"
    and b: "walkSliceLoop w cp (Suc i) s st1 = Some (res, st')"
    by (auto split: option.splits)
  from wmono[OF a] Cons.IH[OF b] show ?case by blast
qed

lemma walkValue_obs:
  assumes vmono: "\<And>p k y s. obs s \<subseteq> obs (snd (visit p k y s))"
  shows "walkValue d visit p k v st = Some (v', st') \<Longrightarrow> obs st \<subseteq> obs st'"
proof (induction d arbitrary: p k v st v' st')
  case 0
  then show ?case by simp
next
  case (Suc d)
  have step: "\<And>p k v s r s'. walkValue d visit p k v s = Some (r, s') \<Longrightarrow> obs s \<subseteq> obs s'"
    by (rule Suc.IH)
  obtain nv c st1 where vis: "visit p k v st = ((nv, c), st1)"
    by (metis prod.exhaust)
  from vmono[of st p k v] vis have m1: "obs st \<subseteq> obs st1" by simp
  show ?case
  proof (cases c)
    case False
    with Suc.prems vis m1 show ?thesis by simp
  next
    case True
    show ?thesis
    proof (cases nv)
      case (AMap m)
      with Suc.prems vis True obtain res where
        l: "walkMapLoop (walkValue d visit) (currentPath p k) m st1 = Some (res, st')"
        by (auto simp: walkMap_def split: option.splits)
      have "obs st1 \<subseteq> obs st'"
        using l by (rule walkMapLoop_obs[where obs=obs, rotated]) (erule step)
      with m1 show ?thesis by blast
    next
      case (ASlice s)
      with Suc.prems vis True obtain res where
        l: "walkSliceLoop (walkValue d visit) (currentPath p k) 0 s st1 = Some (res, st')"
        by (auto simp: walkSlice_def split: option.splits)
      have "obs st1 \<subseteq> obs st'"
        using l by (rule walkSliceLoop_obs[where obs=obs, rotated]) (erule step)
      with m1 show ?thesis by blast
    qed (use Suc.prems vis True m1 in auto)
  qed
qed

lemma walkMapLoop_entry:
  assumes wmono: "\<And>p k v s r s'. w p k v s = Some (r, s') \<Longrightarrow> obs s \<subseteq> obs s'"
  shows "walkMapLoop w cp m st = Some (m', st') \<Longrightarrow> map_of m kk = Some c \<Longrightarrow>
     \<exists>sta c' stb. w cp kk c sta = Some (c', stb) \<and> map_of m' kk = Some c' \<and> obs stb \<subseteq> obs st'"
proof (induction m arbitrary: st m' st')
  case Nil
  then show ?case by simp
next
  case (Cons kv m)
  obtain k v where kv: "kv = (k, v)" by (cases kv)
  from Cons.prems(1) obtain nv st1 res where
    a: "w cp k v st = Some (nv, st1)" and b: "walkMapLoop w cp m st1 = Some (res, st')"
    and m': "m' = (k, nv) # res"
    by (auto simp: kv split: option.splits)
  show ?case
  proof (cases "k = kk")
    case True
    with Cons.prems(2) kv have "c = v" by simp
    moreover have "obs st1 \<subseteq> obs st'"
      using b by (rule walkMapLoop_obs[where obs=obs, rotated]) (erule wmono)
    ultimately show ?thesis using a m' True by auto
  next
    case False
    with Cons.prems(2) kv have "map_of m kk = Some c" by simp
    from Cons.IH[OF b this] show ?thesis using m' False by auto
  qed
qed

lemma walkSliceLoop_entry:
  assumes wmono: "\<And>p k v s r s'. w p k v s = Some (r, s') \<Longrightarrow> obs s \<subseteq> obs s'"
  shows "walkSliceLoop w cp i s st = Some (s', st') \<Longrightarrow> j < length s \<Longrightarrow>
     \<exists>sta c' stb. w cp (indexKey (i + j)) (s ! j) sta = Some (c', stb) \<and>
        j < length s' \<and> s' ! j = c' \<and> obs stb \<subseteq> obs st'"
proof (induction s arbitrary: i j st s' st')
  case Nil
  then show ?case by simp
next
  case (Cons v s)
  from Cons.prems(1) obtain nv st1 res where
    a: "w cp (indexKey i) v st = Some (nv, st1)"
    and b: "walkSliceLoop w cp (Suc i) s st1 = Some (res, st')"
    and s': "s' = nv # res"
    by (auto split: option.splits)
  show ?case
  proof (cases j)
    case 0
    have "obs st1 \<subseteq> obs st'"
      using b by (rule walkSliceLoop_obs[where obs=obs, rotated]) (erule wmono)
    then show ?thesis using a s' 0 by auto
  next
    case (Suc j')
    with Cons.prems(2) have "j' < length s" by simp
    from Cons.IH[OF b this] show ?thesis using s' Suc by auto
  qed
qed

lemma walk_reaches:
  fixes visit :: "'s VisitFunc"
  assumes vmono: "\<And>p k y s. obs s \<subseteq> obs (snd (visit p k y s))"
  shows "walkValue d visit p k v st = Some (v', st') \<Longrightarrow> node_at v pos = Some x \<Longrightarrow>
     (\<And>q y s. strict_prefix q pos \<Longrightarrow> node_at v q = Some y \<Longrightarrow>
        fst (visit (fst (visitArgs p k q)) (snd (visitArgs p k q)) y s) = (y, True)) \<Longrightarrow>
     \<exists>d0 st0 x' st1.
        walkValue (Suc d0) visit (fst (visitArgs p k pos)) (snd (visitArgs p k pos)) x st0 = Some (x', st1) \<and>
        node_at v' pos = Some x' \<and> obs st1 \<subseteq> obs st'"
proof (induction pos arbitrary: d p k v st v' st')
  case Nil
  from Nil.prems(1) obtain d0 where "d = Suc d0" by (cases d) auto
  with Nil.prems show ?case by auto
next
  case (Cons sg pos)
  from Cons.prems(1) obtain d0 where d: "d = Suc d0" by (cases d) auto
  have wm: "\<And>p k v s r s'. walkValue d0 visit p k v s = Some (r, s') \<Longrightarrow> obs s \<subseteq> obs s'"
    by (rule walkValue_obs[where obs=obs, OF vmono])
  obtain nv c st1 where vis: "visit p k v st = ((nv, c), st1)"
    by (metis prod.exhaust)
  have "fst (visit (fst (visitArgs p k [])) (snd (visitArgs p k [])) v st) = (v, True)"
    by (rule Cons.prems(3)) auto
  with vis have nv: "nv = v" and c: "c" by auto
  from Cons.prems(2) obtain ch where ch: "child_at v sg = Some ch" and x: "node_at ch pos = Some x"
    by (auto split: option.splits)
  have keep: "\<And>q y s. strict_prefix q pos \<Longrightarrow> node_at ch q = Some y \<Longrightarrow>
        fst (visit (fst (visitArgs (currentPath p k) (segKey sg) q))
                   (snd (visitArgs (currentPath p k) (segKey sg) q)) y s) = (y, True)"
  proof -
    fix q y s
    assume "strict_prefix q pos" and "node_at ch q = Some y"
    then have "strict_prefix (sg # q) (sg # pos)" and "node_at v (sg # q) = Some y"
      using ch by auto
    from Cons.prems(3)[OF this] show "fst (visit (fst (visitArgs (currentPath p k) (segKey sg) q))
                   (snd (visitArgs (currentPath p k) (segKey sg) q)) y s) = (y, True)"
      by simp
  qed
  have "\<exists>sta c' stb. walkValue d0 visit (currentPath p k) (segKey sg) ch sta = Some (c', stb) \<and>
          child_at v' sg = Some c' \<and> obs stb \<subseteq> obs st'"
  proof (cases v)
    case (AMap m)
    with ch obtain kk where sg: "sg = Key kk" and mk: "map_of m kk = Some ch"
      by (cases sg) auto
    from Cons.prems(1) vis nv c d AMap obtain m' where
      l: "walkMapLoop (walkValue d0 visit) (currentPath p k) m st1 = Some (m', st')"
      and v': "v' = AMap m'"
      by (auto simp: walkMap_def split: option.splits)
    have "\<exists>sta c' stb. walkValue d0 visit (currentPath p k) kk ch sta = Some (c', stb) \<and>
        map_of m' kk = Some c' \<and> obs stb \<subseteq> obs st'"
      using l mk by (rule walkMapLoop_entry[where obs=obs, rotated]) (erule wm)
    then show ?thesis using sg v' by auto
  next
    case (ASlice s)
    with ch obtain j where sg: "sg = Index j" and j: "j < length s" and sj: "s ! j = ch"
      by (cases sg) (auto split: if_splits)
    from Cons.prems(1) vis nv c d ASlice obtain s' where
      l: "walkSliceLoop (walkValue d0 visit) (currentPath p k) 0 s st1 = Some (s', st')"
      and v': "v' = ASlice s'"
      by (auto simp: walkSlice_def split: option.splits)
    have "\<exists>sta c' stb. walkValue d0 visit (currentPath p k) (indexKey (0 + j)) (s ! j) sta = Some (c', stb) \<and>
        j < length s' \<and> s' ! j = c' \<and> obs stb \<subseteq> obs st'"
      using l j by (rule walkSliceLoop_entry[where obs=obs, rotated]) (erule wm)
    then show ?thesis using sg v' sj by auto
  qed (use ch in auto)
  then obtain sta c' stb where
    run: "walkValue d0 visit (currentPath p k) (segKey sg) ch sta = Some (c', stb)"
    and ch': "child_at v' sg = Some c'" and ob: "obs stb \<subseteq> obs st'"
    by blast
  from Cons.IH[OF run x keep] obtain d1 st0 x' st2 where
    A: "walkValue (Suc d1) visit (fst (visitArgs (currentPath p k) (segKey sg) pos))
        (snd (visitArgs (currentPath p k) (segKey sg) pos)) x st0 = Some (x', st2)"
    and B: "node_at c' pos = Some x'" and C: "obs st2 \<subseteq> obs stb"
    by blast
  have n: "node_at v' (sg # pos) = Some x'" using ch' B by simp
  have o: "obs st2 \<subseteq> obs st'" using C ob by blast
  show ?case unfolding visitArgs.simps(2) using A n o by blast
qed

subsection \<open>Visitors that return what they were given\<close>

lemma leaf_value:
  fixes visit :: "'s VisitFunc"
  assumes leaf: "\<not> is_container v"
  shows "(\<forall>n \<in> set (visited path key v). keeps_value visit n) \<longrightarrow>
      (\<forall>d (st::'s). depth v < d \<longrightarrow> (\<exists>st'. walkValue d visit path key v st = Some (v, st')))"
proof (intro allI impI)
  fix d and st :: 's
  assume H: "\<forall>n \<in> set (visited path key v). keeps_value visit n" and "depth v < d"
  then obtain d0 where d: "d = Suc d0" by (cases d) auto
  obtain nv c st1 where vis: "visit path key v st = ((nv, c), st1)"
    by (metis prod.exhaust)
  from H leaf have "keeps_value visit (path, key, v)" by (simp add: visited_leaf)
  with vis have nv: "nv = v"
    unfolding keeps_value_def by (auto dest: spec[where x=st])
  with leaf have "walkValue d visit path key v st = Some (v, st1)"
    using walkValue_leaf[where visit=visit, OF vis] d by simp
  then show "\<exists>st'. walkValue d visit path key v st = Some (v, st')" by blast
qed

lemma walk_value:
  fixes visit :: "'s VisitFunc"
  shows "(\<forall>n \<in> set (visited path key v). keeps_value visit n) \<longrightarrow>
      (\<forall>d (st::'s). depth v < d \<longrightarrow> (\<exists>st'. walkValue d visit path key v st = Some (v, st')))"
    and "(\<forall>n \<in> set (visitedMap cp m). keeps_value visit n) \<longrightarrow>
      (\<forall>d (st::'s). depthMap m < d \<longrightarrow>
         (\<exists>st'. walkMapLoop (walkValue d visit) cp m st = Some (m, st')))"
    and "(\<forall>n \<in> set (visitedSlice cp i s). keeps_value visit n) \<longrightarrow>
      (\<forall>d (st::'s). depthSlice s < d \<longrightarrow>
         (\<exists>st'. walkSliceLoop (walkValue d visit) cp i s st = Some (s, st')))"
proof (induction path key v and cp m and cp i s rule: visited_visitedMap_visitedSlice.induct)
  case (1 path key m)
  show ?case
  proof (intro allI impI)
    fix d and st :: 's
    assume H: "\<forall>n \<in> set (visited path key (AMap m)). keeps_value visit n"
      and "depth (AMap m) < d"
    then obtain d0 where d: "d = Suc d0" and dm: "depthMap m < d0"
      by (cases d) auto
    obtain nv c st1 where vis: "visit path key (AMap m) st = ((nv, c), st1)"
      by (metis prod.exhaust)
    from H have "keeps_value visit (path, key, AMap m)" by simp
    with vis have nv: "nv = AMap m"
      unfolding keeps_value_def by (auto dest: spec[where x=st])
    from H have "\<forall>n \<in> set (visitedMap (currentPath path key) m). keeps_value visit n" by simp
    with 1 dm obtain st' where
      l: "walkMapLoop (walkValue d0 visit) (currentPath path key) m st1 = Some (m, st')"
      by blast
    show "\<exists>st'. walkValue d visit path key (AMap m) st = Some (AMap m, st')"
      using vis nv d l by (cases c) (simp_all add: walkMap_def)
  qed
next
  case (2 path key s)
  show ?case
  proof (intro allI impI)
    fix d and st :: 's
    assume H: "\<forall>n \<in> set (visited path key (ASlice s)). keeps_value visit n"
      and "depth (ASlice s) < d"
    then obtain d0 where d: "d = Suc d0" and dm: "depthSlice s < d0"
      by (cases d) auto
    obtain nv c st1 where vis: "visit path key (ASlice s) st = ((nv, c), st1)"
      by (metis prod.exhaust)
    from H have "keeps_value visit (path, key, ASlice s)" by simp
    with vis have nv: "nv = ASlice s"
      unfolding keeps_value_def by (auto dest: spec[where x=st])
    from H have "\<forall>n \<in> set (visitedSlice (currentPath path key) 0 s). keeps_value visit n" by simp
    with 2 dm obtain st' where
      l: "walkSliceLoop (walkValue d0 visit) (currentPath path key) 0 s st1 = Some (s, st')"
      by blast
    show "\<exists>st'. walkValue d visit path key (ASlice s) st = Some (ASlice s, st')"
      using vis nv d l by (cases c) (simp_all add: walkSlice_def)
  qed
next
  case (4 cp)
  show ?case by simp
next
  case (5 cp k v m)
  show ?case
  proof (intro allI impI)
    fix d and st :: 's
    assume H: "\<forall>n \<in> set (visitedMap cp ((k, v) # m)). keeps_value visit n"
      and "depthMap ((k, v) # m) < d"
    then have dv: "depth v < d" and dm: "depthMap m < d" by auto
    from H have Hv: "\<forall>n \<in> set (visited cp k v). keeps_value visit n"
      and Hm: "\<forall>n \<in> set (visitedMap cp m). keeps_value visit n" by auto
    from 5(1) Hv dv obtain st1 where a: "walkValue d visit cp k v st = Some (v, st1)"
      by blast
    from 5(2) Hm dm obtain st2 where b: "walkMapLoop (walkValue d visit) cp m st1 = Some (m, st2)"
      by blast
    show "\<exists>st'. walkMapLoop (walkValue d visit) cp ((k, v) # m) st = Some ((k, v) # m, st')"
      using a b by simp
  qed
next
  case (6 cp i)
  show ?case by simp
next
  case (7 cp i v s)
  show ?case
  proof (intro allI impI)
    fix d and st :: 's
    assume H: "\<forall>n \<in> set (visitedSlice cp i (v # s)). keeps_value visit n"
      and "depthSlice (v # s) < d"
    then have dv: "depth v < d" and dm: "depthSlice s < d" by auto
    from H have Hv: "\<forall>n \<in> set (visited cp (indexKey i) v). keeps_value visit n"
      and Hm: "\<forall>n \<in> set (visitedSlice cp (Suc i) s). keeps_value visit n" by auto
    from 7(1) Hv dv obtain st1 where a: "walkValue d visit cp (indexKey i) v st = Some (v, st1)"
      by blast
    from 7(2) Hm dm obtain st2 where
      b: "walkSliceLoop (walkValue d visit) cp (Suc i) s st1 = Some (s, st2)"
      by blast
    show "\<exists>st'. walkSliceLoop (walkValue d visit) cp i (v # s) st = Some (v # s, st')"
      using a b by simp
  qed
qed (rule leaf_value, simp)+

subsection \<open>Positions\<close>

lemma node_at_append:
  "node_at v (q @ r) = (case node_at v q of None \<Rightarrow> None | Some y \<Rightarrow> node_at y r)"
  by (induction q arbitrary: v) (auto split: option.splits)

lemma child_at_container: "child_at y sg = Some c \<Longrightarrow> is_container y"
  by (cases y; cases sg) auto

lemma node_above_container:
  assumes "strict_prefix q pos" and "node_at v pos = Some x" and "node_at v q = Some y"
  shows "is_container y"
proof -
  from assms(1) obtain sg r where pos: "pos = q @ sg # r"
    by (metis neq_Nil_conv strict_prefixE')
  from assms(2,3) have "node_at y (sg # r) = Some x"
    by (simp add: pos node_at_append)
  then obtain c where "child_at y sg = Some c" by (auto split: option.splits)
  then show ?thesis by (rule child_at_container)
qed

lemma reaches_prefix:
  "reaches visit p k v pos \<Longrightarrow> strict_prefix q pos \<Longrightarrow> node_at v q = Some y \<Longrightarrow>
     fst (visit (fst (visitArgs p k q)) (snd (visitArgs p k q)) y st) = (y, True)"
proof (induction pos arbitrary: p k v q)
  case Nil
  then show ?case by simp
next
  case (Cons sg pos)
  show ?case
  proof (cases q)
    case Nil
    with Cons.prems show ?thesis by simp
  next
    case (Cons sg' q')
    with Cons.prems(2) have sg': "sg' = sg" and pre: "strict_prefix q' pos" by auto
    from Cons.prems(1) obtain c where c: "child_at v sg = Some c"
      and u: "reaches visit (currentPath p k) (segKey sg) c pos"
      by (auto split: option.splits)
    from Cons.prems(3) c have "node_at c q' = Some y" by (simp add: Cons sg')
    from Cons.IH[OF u pre this] show ?thesis by (simp add: Cons sg')
  qed
qed

section \<open>The visitor of Load\<close>

lemma loadVisit_grows: "set fs \<subseteq> set (snd (loadVisit ext ids p k y fs))"
  by (auto simp: loadVisit_def split: option.splits sum.splits)

lemma loadVisit_container: "is_container y \<Longrightarrow> loadVisit ext ids p k y fs = ((y, True), fs)"
  by (cases y) (auto simp: loadVisit_def armoredString_def)

lemma loadVisit_unopened:
  assumes "isArmoredData s" and "Decrypt ext s ids = Inl err"
  shows "loadVisit ext ids p k (AString s) fs = ((AString s, True), fs @ [loadMeta p k s])"
  using assms by (simp add: loadVisit_def armoredString_def)

lemma loadVisit_cont: "snd (fst (loadVisit ext ids p k y fs)) = True"
  by (auto simp: loadVisit_def split: option.splits sum.splits)

lemma Decrypt_no_identities: "Decrypt ext s [] = Inl (Errorf ''no identities provided'')"
  by (simp add: Decrypt_def)

lemma loadVisit_no_identities: "fst (loadVisit ext [] p k y fs) = (y, True)"
  by (auto simp: loadVisit_def Decrypt_no_identities split: option.splits)

lemma load_reaches_unopened:
  assumes run: "walkValue d (loadVisit ext ids) p k v fs = Some (v', fs')"
    and at: "node_at v pos = Some (AString s)"
    and arm: "isArmoredData s"
    and fail: "Decrypt ext s ids = Inl err"
  shows "node_at v' pos = Some (AString s) \<and>
     loadMeta (fst (visitArgs p k pos)) (snd (visitArgs p k pos)) s \<in> set fs'"
proof -
  have keep: "\<And>q y s'. strict_prefix q pos \<Longrightarrow> node_at v q = Some y \<Longrightarrow>
      fst (loadVisit ext ids (fst (visitArgs p k q)) (snd (visitArgs p k q)) y s') = (y, True)"
    using node_above_container[OF _ at] by (simp add: loadVisit_container)
  have "\<exists>d0 st0 x' st1.
        walkValue (Suc d0) (loadVisit ext ids) (fst (visitArgs p k pos)) (snd (visitArgs p k pos))
          (AString s) st0 = Some (x', st1) \<and>
        node_at v' pos = Some x' \<and> set st1 \<subseteq> set fs'"
  proof (rule walk_reaches[where obs=set and visit="loadVisit ext ids", OF _ run at])
    show "\<And>p k y s. set s \<subseteq> set (snd (loadVisit ext ids p k y s))"
      by (rule loadVisit_grows)
  next
    fix q y s'
    assume "strict_prefix q pos" and "node_at v q = Some y"
    then show "fst (loadVisit ext ids (fst (visitArgs p k q)) (snd (visitArgs p k q)) y s') = (y, True)"
      by (rule keep)
  qed
  then obtain d0 st0 x' st1 where
    A: "walkValue (Suc d0) (loadVisit ext ids) (fst (visitArgs p k pos)) (snd (visitArgs p k pos))
          (AString s) st0 = Some (x', st1)"
    and B: "node_at v' pos = Some x'" and C: "set st1 \<subseteq> set fs'"
    by blast
  from A have "x' = AString s"
    and "st1 = st0 @ [loadMeta (fst (visitArgs p k pos)) (snd (visitArgs p k pos)) s]"
    by (simp_all add: loadVisit_unopened[OF arm fail])
  with B C show ?thesis by auto
qed


subsection \<open>Termination of the load walk\<close>

lemma walkMapLoop_returns:
  fixes visit :: "'s VisitFunc"
  assumes "\<forall>kv \<in> set m. \<exists>d. \<forall>p k (st::'s). \<exists>r. walkValue d visit p k (snd kv) st = Some r"
  shows "\<exists>d. \<forall>cp (st::'s). \<exists>r. walkMapLoop (walkValue d visit) cp m st = Some r"
  using assms
proof (induction m)
  case Nil
  then show ?case by simp
next
  case (Cons kv m)
  obtain k v where kv: "kv = (k, v)" by (cases kv)
  from Cons.prems obtain d1 where d1: "\<forall>p k (st::'s). \<exists>r. walkValue d1 visit p k v st = Some r"
    by (auto simp: kv)
  from Cons obtain d2 where d2: "\<forall>cp (st::'s). \<exists>r. walkMapLoop (walkValue d2 visit) cp m st = Some r"
    by auto
  let ?d = "max d1 d2"
  have "\<forall>cp (st::'s). \<exists>r. walkMapLoop (walkValue ?d visit) cp (kv # m) st = Some r"
  proof (intro allI)
    fix cp and st :: 's
    from d1 obtain nv st1 where "walkValue d1 visit cp k v st = Some (nv, st1)"
      by (metis prod.exhaust)
    then have a: "walkValue ?d visit cp k v st = Some (nv, st1)"
      by (rule walkValue_mono) simp
    from d2 obtain r where "walkMapLoop (walkValue d2 visit) cp m st1 = Some r" by blast
    then have b: "walkMapLoop (walkValue ?d visit) cp m st1 = Some r"
      by (rule walkMapLoop_mono[rotated]) (erule walkValue_mono, simp)
    show "\<exists>r. walkMapLoop (walkValue ?d visit) cp (kv # m) st = Some r"
      using a b by (cases r) (simp add: kv)
  qed
  then show ?case by blast
qed

lemma walkSliceLoop_returns:
  fixes visit :: "'s VisitFunc"
  assumes "\<forall>v \<in> set s. \<exists>d. \<forall>p k (st::'s). \<exists>r. walkValue d visit p k v st = Some r"
  shows "\<exists>d. \<forall>cp i (st::'s). \<exists>r. walkSliceLoop (walkValue d visit) cp i s st = Some r"
  using assms
proof (induction s)
  case Nil
  then show ?case by simp
next
  case (Cons v s)
  from Cons.prems obtain d1 where d1: "\<forall>p k (st::'s). \<exists>r. walkValue d1 visit p k v st = Some r"
    by auto
  from Cons obtain d2 where
    d2: "\<forall>cp i (st::'s). \<exists>r. walkSliceLoop (walkValue d2 visit) cp i s st = Some r"
    by auto
  let ?d = "max d1 d2"
  have "\<forall>cp i (st::'s). \<exists>r. walkSliceLoop (walkValue ?d visit) cp i (v # s) st = Some r"
  proof (intro allI)
    fix cp i and st :: 's
    from d1 obtain nv st1 where "walkValue d1 visit cp (indexKey i) v st = Some (nv, st1)"
      by (metis prod.exhaust)
    then have a: "walkValue ?d visit cp (indexKey i) v st = Some (nv, st1)"
      by (rule walkValue_mono) simp
    from d2 obtain r where "walkSliceLoop (walkValue d2 visit) cp (Suc i) s st1 = Some r" by blast
    then have b: "walkSliceLoop (walkValue ?d visit) cp (Suc i) s st1 = Some r"
      by (rule walkSliceLoop_mono[rotated]) (erule walkValue_mono, simp)
    show "\<exists>r. walkSliceLoop (walkValue ?d visit) cp i (v # s) st = Some r"
      using a b by (cases r) simp
  qed
  then show ?case by blast
qed

lemma rest_returns_walk:
  fixes visit :: "'s VisitFunc"
  assumes rest: "rest_returns visit u"
    and vis: "\<And>p k (st::'s). fst (fst (visit p k v st)) = u"
  shows "\<exists>d. \<forall>p k (st::'s). \<exists>r. walkValue d visit p k v st = Some r"
proof (cases u)
  case (AMap m)
  with rest obtain d where
    d: "\<forall>cp (st::'s). \<exists>r. walkMapLoop (walkValue d visit) cp m st = Some r"
    by (auto simp: rest_returns_def)
  have "\<forall>p k (st::'s). \<exists>r. walkValue (Suc d) visit p k v st = Some r"
  proof (intro allI)
    fix p k and st :: 's
    obtain nv c st1 where v1: "visit p k v st = ((nv, c), st1)" by (metis prod.exhaust)
    with vis[of p k st] AMap have nv: "nv = AMap m" by simp
    from d obtain r where "walkMapLoop (walkValue d visit) (currentPath p k) m st1 = Some r"
      by blast
    then show "\<exists>r. walkValue (Suc d) visit p k v st = Some r"
      using v1 nv by (cases r; cases c) (simp_all add: walkMap_def)
  qed
  then show ?thesis by blast
next
  case (ASlice s)
  with rest obtain d where
    d: "\<forall>cp i (st::'s). \<exists>r. walkSliceLoop (walkValue d visit) cp i s st = Some r"
    by (auto simp: rest_returns_def)
  have "\<forall>p k (st::'s). \<exists>r. walkValue (Suc d) visit p k v st = Some r"
  proof (intro allI)
    fix p k and st :: 's
    obtain nv c st1 where v1: "visit p k v st = ((nv, c), st1)" by (metis prod.exhaust)
    with vis[of p k st] ASlice have nv: "nv = ASlice s" by simp
    from d obtain r where "walkSliceLoop (walkValue d visit) (currentPath p k) 0 s st1 = Some r"
      by blast
    then show "\<exists>r. walkValue (Suc d) visit p k v st = Some r"
      using v1 nv by (cases r; cases c) (simp_all add: walkSlice_def)
  qed
  then show ?thesis by blast
qed (insert vis, (rule exI[of _ "Suc 0"], intro allI,
      metis walkValue_leaf is_container.simps prod.collapse)+)


lemma loadVisit_value: "fst (loadVisit ext ids p k v fs) = (loadValue ext ids v, True)"
  by (auto simp: loadVisit_def loadValue_def split: option.splits sum.splits)

lemma strings_of_entry: "(k, c) \<in> set m \<Longrightarrow> set (strings_of c) \<subseteq> set (strings_of_map m)"
  by (induction m) auto

lemma strings_of_item: "c \<in> set s \<Longrightarrow> set (strings_of c) \<subseteq> set (strings_of_slice s)"
  by (induction s) auto

lemma load_returns_if_rest:
  assumes "rest_returns (loadVisit ext ids) (loadValue ext ids v)"
  shows "\<exists>d. \<forall>p k fs. \<exists>r. walkValue d (loadVisit ext ids) p k v fs = Some r"
  using assms by (rule rest_returns_walk) (simp add: loadVisit_value)

lemma loadValue_other: "armoredString v = None \<Longrightarrow> loadValue ext ids v = v"
  by (simp add: loadValue_def)

lemma rest_returns_leaf: "\<not> is_container u \<Longrightarrow> rest_returns visit u"
  by (cases u) (simp_all add: rest_returns_def)

lemma load_returns_inner:
  assumes "\<And>c b. c \<in> set (strings_of v) \<Longrightarrow> isArmoredData c \<Longrightarrow> Decrypt ext c ids = Inr b \<Longrightarrow>
      rest_returns (loadVisit ext ids) (decodeJSON ext b)"
  shows "\<exists>d. \<forall>p k fs. \<exists>r. walkValue d (loadVisit ext ids) p k v fs = Some r"
  using assms
proof (induction v)
  case (AString str)
  have "rest_returns (loadVisit ext ids) (loadValue ext ids (AString str))"
  proof (cases "isArmoredData str")
    case False
    then show ?thesis by (simp add: loadValue_def armoredString_def rest_returns_def)
  next
    case True
    show ?thesis
    proof (cases "Decrypt ext str ids")
      case (Inl err)
      with True show ?thesis by (simp add: loadValue_def armoredString_def rest_returns_def)
    next
      case (Inr b)
      with True AString[of str b] show ?thesis by (simp add: loadValue_def armoredString_def)
    qed
  qed
  then show ?case by (rule load_returns_if_rest)
next
  case (ASlice s)
  have "\<forall>v \<in> set s. \<exists>d. \<forall>p k fs. \<exists>r. walkValue d (loadVisit ext ids) p k v fs = Some r"
  proof
    fix v assume v: "v \<in> set s"
    show "\<exists>d. \<forall>p k fs. \<exists>r. walkValue d (loadVisit ext ids) p k v fs = Some r"
    proof (rule ASlice.IH[OF v])
      fix c b
      assume "c \<in> set (strings_of v)" and a: "isArmoredData c" and d: "Decrypt ext c ids = Inr b"
      with strings_of_item[OF v] have "c \<in> set (strings_of (ASlice s))" by auto
      then show "rest_returns (loadVisit ext ids) (decodeJSON ext b)"
        using a d by (rule ASlice.prems)
    qed
  qed
  then have "rest_returns (loadVisit ext ids) (ASlice s)"
    using walkSliceLoop_returns[where visit="loadVisit ext ids" and s=s]
    by (simp add: rest_returns_def)
  then show ?case
    by (intro load_returns_if_rest) (simp add: loadValue_def armoredString_def)
next
  case (AMap m)
  have "\<forall>kv \<in> set m. \<exists>d. \<forall>p k fs. \<exists>r. walkValue d (loadVisit ext ids) p k (snd kv) fs = Some r"
  proof
    fix kv assume kv: "kv \<in> set m"
    have sn: "snd kv \<in> Basic_BNFs.snds kv" by (cases kv) simp
    show "\<exists>d. \<forall>p k fs. \<exists>r. walkValue d (loadVisit ext ids) p k (snd kv) fs = Some r"
    proof (rule AMap.IH[OF kv sn])
      fix c b
      assume "c \<in> set (strings_of (snd kv))" and a: "isArmoredData c"
        and d: "Decrypt ext c ids = Inr b"
      with strings_of_entry[of "fst kv" "snd kv" m] kv
      have "c \<in> set (strings_of (AMap m))" by auto
      then show "rest_returns (loadVisit ext ids) (decodeJSON ext b)"
        using a d by (rule AMap.prems)
    qed
  qed
  then have "rest_returns (loadVisit ext ids) (AMap m)"
    using walkMapLoop_returns[where visit="loadVisit ext ids" and m=m]
    by (simp add: rest_returns_def)
  then show ?case
    by (intro load_returns_if_rest) (simp add: loadValue_def armoredString_def)
qed (intro load_returns_if_rest, simp add: loadValue_def armoredString_def rest_returns_def)+

lemma load_returns_ranked:
  assumes rank: "\<And>c b c'. Decrypt ext c ids = Inr b \<Longrightarrow> c' \<in> set (strings_of (decodeJSON ext b)) \<Longrightarrow>
      isArmoredData c' \<Longrightarrow> rank c' < (rank c :: nat)"
  shows "(\<forall>c \<in> set (strings_of v). isArmoredData c \<longrightarrow> rank c < n) \<Longrightarrow>
     \<exists>d. \<forall>p k fs. \<exists>r. walkValue d (loadVisit ext ids) p k v fs = Some r"
proof (induction n arbitrary: v)
  case 0
  show ?case
  proof (rule load_returns_inner)
    fix c b
    assume "c \<in> set (strings_of v)" and "isArmoredData c"
    with 0 show "rest_returns (loadVisit ext ids) (decodeJSON ext b)" by simp
  qed
next
  case (Suc n)
  show ?case
  proof (rule load_returns_inner)
    fix c b
    assume c: "c \<in> set (strings_of v)" and a: "isArmoredData c" and d: "Decrypt ext c ids = Inr b"
    with Suc.prems have rc: "rank c \<le> n" by auto
    let ?u = "decodeJSON ext b"
    have sub: "\<And>ch. set (strings_of ch) \<subseteq> set (strings_of ?u) \<Longrightarrow>
        \<exists>d. \<forall>p k fs. \<exists>r. walkValue d (loadVisit ext ids) p k ch fs = Some r"
    proof -
      fix ch assume s: "set (strings_of ch) \<subseteq> set (strings_of ?u)"
      show "\<exists>d. \<forall>p k fs. \<exists>r. walkValue d (loadVisit ext ids) p k ch fs = Some r"
      proof (rule Suc.IH, intro ballI impI)
        fix c' assume "c' \<in> set (strings_of ch)" and a': "isArmoredData c'"
        with s have "c' \<in> set (strings_of ?u)" by auto
        from rank[OF d this a'] rc show "rank c' < n" by simp
      qed
    qed
    show "rest_returns (loadVisit ext ids) ?u"
    proof (cases ?u)
      case (AMap m)
      have "\<forall>kv \<in> set m. \<exists>d. \<forall>p k fs. \<exists>r. walkValue d (loadVisit ext ids) p k (snd kv) fs = Some r"
      proof
        fix kv assume "kv \<in> set m"
        then have "set (strings_of (snd kv)) \<subseteq> set (strings_of ?u)"
          using strings_of_entry[of "fst kv" "snd kv" m] AMap by simp
        then show "\<exists>d. \<forall>p k fs. \<exists>r. walkValue d (loadVisit ext ids) p k (snd kv) fs = Some r"
          by (rule sub)
      qed
      then show ?thesis
        using walkMapLoop_returns[where visit="loadVisit ext ids" and m=m] AMap
        by (simp add: rest_returns_def)
    next
      case (ASlice s)
      have "\<forall>v \<in> set s. \<exists>d. \<forall>p k fs. \<exists>r. walkValue d (loadVisit ext ids) p k v fs = Some r"
      proof
        fix v assume "v \<in> set s"
        then have "set (strings_of v) \<subseteq> set (strings_of ?u)"
          using strings_of_item[of v s] ASlice by simp
        then show "\<exists>d. \<forall>p k fs. \<exists>r. walkValue d (loadVisit ext ids) p k v fs = Some r"
          by (rule sub)
      qed
      then show ?thesis
        using walkSliceLoop_returns[where visit="loadVisit ext ids" and s=s] ASlice
        by (simp add: rest_returns_def)
    qed (simp_all add: rest_returns_def)
  qed
qed

section \<open>Strings and options\<close>

lemma Contains_iff: "Contains s substr \<longleftrightarrow> (\<exists>p q. s = p @ substr @ q)"
proof (induction s)
  case Nil
  then show ?case by auto
next
  case (Cons c cs)
  show ?case
  proof
    assume "Contains (c # cs) substr"
    then consider "take (length substr) (c # cs) = substr" | "Contains cs substr" by auto
    then show "\<exists>p q. c # cs = p @ substr @ q"
    proof cases
      case 1
      then have "c # cs = [] @ substr @ drop (length substr) (c # cs)"
        by (metis append_Nil append_take_drop_id)
      then show ?thesis by blast
    next
      case 2
      then obtain p q where "cs = p @ substr @ q" using Cons.IH by blast
      then have "c # cs = (c # p) @ substr @ q" by simp
      then show ?thesis by blast
    qed
  next
    assume "\<exists>p q. c # cs = p @ substr @ q"
    then obtain p q where pq: "c # cs = p @ substr @ q" by blast
    show "Contains (c # cs) substr"
    proof (cases p)
      case Nil
      then have "take (length substr) (c # cs) = substr" using pq by simp
      then show ?thesis by simp
    next
      case (Cons a p')
      then have "cs = p' @ substr @ q" using pq by simp
      then have "Contains cs substr" using Cons.IH by blast
      then show ?thesis by simp
    qed
  qed
qed

lemma Keys_setDefaults: "Keys (setDefaults opts) = Keys opts"
  by (simp add: setDefaults_def Let_def)

section \<open>Index keys\<close>

lemma digit_char_props:
  assumes "d < 10"
  shows "is_digit (digit_char d)" and "digit_val (digit_char d) = d"
    and "digit_char d \<noteq> CHR ''-''" and "digit_char d \<noteq> CHR ''+''"
    and "space_rune_len (digit_char d # cs) = 0"
proof -
  have oc: "of_char (digit_char d) = 48 + d"
    using assms by (simp add: digit_char_def)
  show "is_digit (digit_char d)" using assms by (simp add: is_digit_def oc)
  show "digit_val (digit_char d) = d" by (simp add: digit_val_def oc)
  show "digit_char d \<noteq> CHR ''-''"
  proof
    assume "digit_char d = CHR ''-''"
    then have "of_char (digit_char d) = (of_char (CHR ''-'') :: nat)" by simp
    with oc show False by simp
  qed
  show "digit_char d \<noteq> CHR ''+''"
  proof
    assume "digit_char d = CHR ''+''"
    then have "of_char (digit_char d) = (of_char (CHR ''+'') :: nat)" by simp
    with oc show False by simp
  qed
  show "space_rune_len (digit_char d # cs) = 0"
    using assms by (simp add: oc Let_def)
qed

lemma itoa_nonempty: "itoa n \<noteq> []"
  by (subst itoa.simps) simp

lemma itoa_digits: "list_all is_digit (itoa n)"
proof (induction n rule: itoa.induct)
  case (1 n)
  show ?case
  proof (cases "n < 10")
    case True
    then show ?thesis by (subst itoa.simps) (simp add: digit_char_props)
  next
    case False
    with 1 have "list_all is_digit (itoa (n div 10))" by simp
    moreover have "is_digit (digit_char (n mod 10))" by (simp add: digit_char_props)
    ultimately show ?thesis using False by (subst itoa.simps) simp
  qed
qed

lemma atoi_snoc: "atoi (ds @ [c]) = 10 * atoi ds + digit_val c"
  by (simp add: atoi_def)

lemma atoi_itoa: "atoi (itoa n) = n"
proof (induction n rule: itoa.induct)
  case (1 n)
  show ?case
  proof (cases "n < 10")
    case True
    then show ?thesis by (subst itoa.simps) (simp add: atoi_def digit_char_props)
  next
    case False
    with 1 have "atoi (itoa (n div 10)) = n div 10" by simp
    then show ?thesis using False
      by (subst itoa.simps) (simp add: atoi_snoc digit_char_props)
  qed
qed

lemma itoa_hd: "\<exists>d cs. d < 10 \<and> itoa n = digit_char d # cs"
proof (induction n rule: itoa.induct)
  case (1 n)
  show ?case
  proof (cases "n < 10")
    case True
    then show ?thesis by (subst itoa.simps) auto
  next
    case False
    with 1 obtain d cs where "d < 10" and "itoa (n div 10) = digit_char d # cs" by auto
    then show ?thesis using False by (subst itoa.simps) auto
  qed
qed

lemma Sscanf_d_itoa:
  assumes "n < 2 ^ 63"
  shows "Sscanf_d (itoa n) = Some (int n)"
proof -
  obtain d cs where d: "d < 10" and hd: "itoa n = digit_char d # cs"
    using itoa_hd by blast
  have srl: "space_rune_len (itoa n) = 0"
    by (simp only: hd digit_char_props(5)[OF d])
  have skip: "SkipSpace (itoa n) = itoa n"
    by (subst SkipSpace.simps) (simp add: srl del: space_rune_len.simps)
  have nosign: "take 1 (itoa n) \<noteq> ''-''" "take 1 (itoa n) \<noteq> ''+''"
    using digit_char_props(3,4)[OF d] by (simp_all add: hd)
  have run: "takeWhile (\<lambda>c. is_digit c \<or> c = CHR ''_'') (itoa n) = itoa n"
    using itoa_digits[of n] by (simp add: list_all_iff takeWhile_eq_all_conv)
  have "int n \<le> 2 ^ 63 - 1"
  proof -
    from assms have "int n < 2 ^ 63" by (metis of_nat_less_numeral_power_cancel_iff)
    then show ?thesis by simp
  qed
  then have "ParseInt (itoa n) = Some (int n)"
    using nosign itoa_nonempty[of n] itoa_digits[of n]
    by (simp add: ParseInt_def Let_def atoi_itoa)
  then show ?thesis
    using nosign itoa_nonempty[of n] by (simp add: Sscanf_d_def Let_def skip run)
qed

lemma indexKey_nonempty: "indexKey i \<noteq> []"
  by (simp add: indexKey_def)

lemma GetValue_index:
  assumes "j < length s" and "length s < 2 ^ 63"
  shows "GetValue (ASlice s) (indexKey j # rel) = GetValue (s ! j) rel"
proof -
  let ?key = "indexKey j"
  have len: "length ?key = length (itoa j) + 2" by (simp add: indexKey_def)
  have l3: "\<not> length ?key < 3" using itoa_nonempty[of j] by (cases "itoa j") (simp_all add: len)
  have first: "?key ! 0 = CHR ''[''" by (simp add: indexKey_def)
  have last: "?key ! (length ?key - 1) = CHR '']''"
    by (simp add: indexKey_def nth_append)
  have inner: "take (length ?key - 2) (drop 1 ?key) = itoa j"
    by (simp add: indexKey_def)
  from assms have "j < 2 ^ 63" by simp
  then have scan: "Sscanf_d (itoa j) = Some (int j)" by (rule Sscanf_d_itoa)
  have "GetValue (ASlice s) (?key # rel) =
      (if int j < 0 \<or> int j \<ge> int (length s) then (ANil, False) else GetValue (s ! nat (int j)) rel)"
    by (simp only: GetValue.simps l3 first last inner scan simp_thms if_False option.case)
  then show ?thesis using assms(1) by simp
qed


section \<open>Facts about the stand-ins\<close>

lemma sample_toml_doc: "toml_Unmarshal sample_deps sample_doc = Inr sample_tree"
  by (simp add: sample_deps_def)

lemma sample_identities:
  "LoadIdentities sample_deps (Keys (sample_opts ids rcps)) = Inr (map X25519Identity ids)"
proof -
  have "\<And>acc. parseEach (\<lambda>str. Inr (X25519Identity str)) msg ids acc = Inr (acc @ map X25519Identity ids)"
    for msg
    by (induction ids) simp_all
  then show ?thesis
    by (simp add: LoadIdentities_def sample_opts_def sample_keys_def sample_deps_def)
qed

lemma sample_recipients:
  "LoadRecipients sample_deps (Keys (sample_opts ids rcps)) = Inr (map X25519Recipient rcps)"
proof -
  have "\<And>acc. parseEach (\<lambda>str. Inr (X25519Recipient str)) msg rcps acc = Inr (acc @ map X25519Recipient rcps)"
    for msg
    by (induction rcps) simp_all
  then show ?thesis
    by (simp add: LoadRecipients_def sample_opts_def sample_keys_def sample_deps_def)
qed

lemma sample_recipients_passphrase:
  "LoadRecipients sample_deps (Keys sample_opts_passphrase)
     = Inr [X25519Recipient ''k1'', ScryptRecipient ''hunter2'']"
  by (simp add: LoadRecipients_def sample_opts_passphrase_def sample_deps_def)

lemma sample_seal_mixed:
  "isl (Encrypt sample_deps draw data [X25519Recipient ''k1'', ScryptRecipient ''hunter2''])"
  by (simp add: Encrypt_def sample_deps_def sample_seal_def)

lemma digit_not_colon: "is_digit c \<Longrightarrow> c \<noteq> CHR '':''"
  by (auto simp: is_digit_def)

lemma sample_open_armor:
  assumes "CHR ''#'' \<notin> set key" and "CHR '':'' \<notin> set key"
  shows "sample_open (sample_armor key draw data) ids =
     (if X25519Identity key \<in> set ids then Inr data
      else Inl (External ''no identity matched any of the recipients''))"
proof -
  let ?body = "key @ ''#'' @ itoa draw @ '':'' @ data @ [LF] @ endMarker @ [LF]"
  have a: "sample_armor key draw data = (beginMarker @ [LF]) @ ?body"
    by (simp add: sample_armor_def)
  have t: "take (Suc (length beginMarker)) (sample_armor key draw data) = beginMarker @ [LF]"
    by (simp add: a)
  have b: "drop (Suc (length beginMarker)) (sample_armor key draw data) = ?body"
    by (simp add: a)
  have "takeWhile (\<lambda>c. c \<noteq> CHR ''#'') (key @ (''#'' @ itoa draw @ '':'' @ data @ [LF] @ endMarker @ [LF]))
      = key @ takeWhile (\<lambda>c. c \<noteq> CHR ''#'') (''#'' @ itoa draw @ '':'' @ data @ [LF] @ endMarker @ [LF])"
    by (rule takeWhile_append2) (use assms(1) in auto)
  then have k: "takeWhile (\<lambda>c. c \<noteq> CHR ''#'') ?body = key"
    by simp
  have nd: "\<And>x. x \<in> set (key @ ''#'' @ itoa draw) \<Longrightarrow> x \<noteq> CHR '':''"
    using assms(2) itoa_digits[of draw] by (auto simp: list_all_iff dest: digit_not_colon)
  have "dropWhile (\<lambda>c. c \<noteq> CHR '':'') ((key @ ''#'' @ itoa draw) @ ('':'' @ data @ [LF] @ endMarker @ [LF]))
      = dropWhile (\<lambda>c. c \<noteq> CHR '':'') ('':'' @ data @ [LF] @ endMarker @ [LF])"
    by (rule dropWhile_append2) (rule nd)
  then have r: "drop 1 (dropWhile (\<lambda>c. c \<noteq> CHR '':'') ?body) = data @ [LF] @ endMarker @ [LF]"
    by simp
  show ?thesis
    unfolding sample_open_def t b Let_def k r by simp
qed

lemma sample_seal_open:
  assumes "Encrypt sample_deps draw data [X25519Recipient ''k1''] = Inr c"
  shows "isArmoredData c \<and> Decrypt sample_deps c [X25519Identity ''k1''] = Inr data"
proof -
  from assms have c: "c = sample_armor ''k1'' draw data"
    by (simp add: Encrypt_def sample_deps_def sample_seal_def)
  have "\<exists>p q. c = p @ beginMarker @ q"
    unfolding c sample_armor_def by (rule exI[of _ "[]"]) simp
  moreover have "c = (beginMarker @ [LF] @ ''k1'' @ ''#'' @ itoa draw @ '':'' @ data @ [LF]) @ endMarker @ [LF]"
    by (simp add: c sample_armor_def)
  then have "\<exists>p q. c = p @ endMarker @ q" by blast
  ultimately have "isArmoredData c" by (simp add: isArmoredData_def Contains_iff)
  moreover have "Decrypt sample_deps c [X25519Identity ''k1''] = Inr data"
    by (simp add: Decrypt_def sample_deps_def c sample_open_armor)
  ultimately show ?thesis by simp
qed

lemma sample_open_shorter:
  assumes "sample_open c ids = Inr b"
  shows "length b < length c"
proof -
  from assms have t: "take (Suc (length beginMarker)) c = beginMarker @ [LF]"
    by (auto simp: sample_open_def split: if_splits)
  then have "length (take (Suc (length beginMarker)) c) = Suc (length beginMarker)" by simp
  then have len: "Suc (length beginMarker) \<le> length c" by simp
  let ?body = "drop (Suc (length beginMarker)) c"
  let ?rest = "drop 1 (dropWhile (\<lambda>c. c \<noteq> CHR '':'') ?body)"
  from assms t have b: "b = take (length ?rest - (length endMarker + 2)) ?rest"
    by (auto simp: sample_open_def Let_def split: if_splits)
  have "length b \<le> length ?rest" by (simp add: b)
  also have "\<dots> \<le> length (dropWhile (\<lambda>c. c \<noteq> CHR '':'') ?body)" by simp
  also have "\<dots> \<le> length ?body" by (rule length_dropWhile_le)
  also have "\<dots> < length c" using len by simp
  finally show ?thesis .
qed

lemma localhost_plain: "\<not> isArmoredData ''localhost''"
  by code_simp

lemma sample_rank:
  assumes "Decrypt sample_deps c ids = Inr b"
    and "c' \<in> set (strings_of (decodeJSON sample_deps b))"
    and "isArmoredData c'"
  shows "length c' < length c"
proof -
  from assms(1) have "sample_open c ids = Inr b"
    by (auto simp: Decrypt_def sample_deps_def split: if_splits)
  then have short: "length b < length c" by (rule sample_open_shorter)
  from assms(2,3) localhost_plain have "c' = b"
    by (auto simp: decodeJSON_def sample_deps_def sample_json_Unmarshal_def split: if_splits)
  with short show ?thesis by simp
qed

section \<open>Ciphertext detection\<close>

text \<open>
  C2 (as stated): a leaf is recognised as already encrypted if and only if it is a string
  containing the begin marker and the end marker, the begin marker before the end marker.
  The code accepts the string made of the end marker followed by the begin marker, in which
  no occurrence of the begin marker starts before an occurrence of the end marker.
\<close>

theorem C2_order_counterexample:
  "armoredString (AString (endMarker @ beginMarker)) = Some (endMarker @ beginMarker) \<and>
   \<not> markers_in_order (AString (endMarker @ beginMarker))"
  by code_simp

text \<open>
  C2 (amended): a leaf is recognised as already encrypted if and only if it is a string that
  contains the begin marker and contains the end marker, wherever they occur.
\<close>

theorem C2_recognised_iff_both_markers:
  "armoredString val = Some s \<longleftrightarrow>
     val = AString s \<and> (\<exists>p q. s = p @ beginMarker @ q) \<and> (\<exists>p q. s = p @ endMarker @ q)"
  by (cases val) (auto simp: armoredString_def isArmoredData_def Contains_iff)

section \<open>Save without recipients\<close>

text \<open>
  C7: when the key sources yield an empty recipient list, \<open>Save\<close> returns the error
  "no recipients available for encryption", whatever the tree, the policy and the depth
  available; it returns no document and no field records, and the walk is never started.
\<close>

theorem C7_save_zero_recipients:
  assumes "LoadRecipients ext (Keys opts) = Inr []"
  shows "Save d ext tree opts = Some (Inl (Errorf ''no recipients available for encryption'')) \<and>
         SaveTree d ext tree opts = Some (Inl (Errorf ''no recipients available for encryption''))"
  using assms by (simp add: Save_def SaveTree_def Keys_setDefaults)


theorem C7_save_zero_recipients_witness:
  "LoadRecipients sample_deps (Keys (sample_opts [] [])) = Inr [] \<and>
   Save 0 sample_deps (AMap [(''private_password'', AString ''secret'')]) (sample_opts [] []) =
     Some (Inl (Errorf ''no recipients available for encryption'')) \<and>
   SaveTree 0 sample_deps (AMap [(''private_password'', AString ''secret'')]) (sample_opts [] []) =
     Some (Inl (Errorf ''no recipients available for encryption''))"
proof -
  have h: "LoadRecipients sample_deps (Keys (sample_opts [] [])) = Inr []"
    by (simp add: LoadRecipients_def sample_opts_def sample_keys_def sample_deps_def)
  show ?thesis
    using h C7_save_zero_recipients[OF h, of 0 "AMap [(''private_password'', AString ''secret'')]"]
    by simp
qed

section \<open>Load\<close>

lemma load_root_map:
  assumes "walkValue d (loadVisit ext ids) p k (AMap tree) fs = Some (t, fs')"
  shows "\<exists>m. t = AMap m"
proof -
  from assms obtain d0 where d: "d = Suc d0" by (cases d) auto
  have "loadVisit ext ids p k (AMap tree) fs = ((AMap tree, True), fs)"
    by (simp add: loadVisit_container)
  with assms d show ?thesis
    by (auto simp: walkMap_def split: option.splits)
qed

lemma LoadTree_walk:
  assumes "walkValue d (loadVisit ext ids) [] [] (AMap tree) [] = Some (AMap m, fs)"
  shows "LoadTree d ext tree ids = Some (Inr \<lparr>Tree = m, Fields = fs\<rparr>)"
  using assms by (simp add: LoadTree_def Walk_def)

lemma Load_LoadTree:
  assumes "toml_Unmarshal ext data = Inr tree" and "LoadIdentities ext (Keys opts) = Inr ids"
  shows "Load d ext data opts = LoadTree d ext tree ids"
  using assms by (simp add: Load_def Keys_setDefaults)

lemma LoadTree_mono:
  assumes "LoadTree d ext tree ids = Some r" and "d \<le> d'"
  shows "LoadTree d' ext tree ids = Some r"
proof -
  from assms(1) obtain t fs where
    w: "walkValue d (loadVisit ext ids) [] [] (AMap tree) [] = Some (t, fs)"
    by (auto simp: LoadTree_def Walk_def split: option.splits)
  from walkValue_mono[OF w assms(2)] assms(1) w show ?thesis
    by (simp add: LoadTree_def Walk_def)
qed

lemma LoadTree_deterministic:
  assumes "LoadTree d ext tree ids = Some r" and "LoadTree d' ext tree ids = Some r'"
  shows "r = r'"
proof -
  have "LoadTree (max d d') ext tree ids = Some r"
    using assms(1) by (rule LoadTree_mono) simp
  moreover have "LoadTree (max d d') ext tree ids = Some r'"
    using assms(2) by (rule LoadTree_mono) simp
  ultimately show ?thesis by simp
qed

theorem C10_load_without_identities:
  assumes parse: "toml_Unmarshal ext data = Inr tree"
    and noid: "LoadIdentities ext (Keys opts) = Inr []"
  shows "\<exists>fs.
     (\<forall>d. depth (AMap tree) < d \<longrightarrow> Load d ext data opts = Some (Inr \<lparr>Tree = tree, Fields = fs\<rparr>)) \<and>
     (\<forall>pos s. node_at (AMap tree) pos = Some (AString s) \<and> isArmoredData s \<longrightarrow>
        \<lparr>Path = fst (visitArgs [] [] pos) @ [snd (visitArgs [] [] pos)], WasEncrypted = True,
         Armored = s, ASCIIQR = [], UsedRecipients = [], UsedPassphrase = False\<rparr> \<in> set fs)"
proof -
  let ?V = "loadVisit ext []"
  let ?d0 = "Suc (depth (AMap tree))"
  have "\<forall>n \<in> set (visited [] [] (AMap tree)). keeps_value ?V n"
    by (auto simp: keeps_value_def loadVisit_no_identities)
  with walk_value(1)[where visit="?V" and path="[]" and key="[]" and v="AMap tree"]
  obtain fs where w: "walkValue ?d0 ?V [] [] (AMap tree) [] = Some (AMap tree, fs)"
    by blast
  have a: "\<forall>d. depth (AMap tree) < d \<longrightarrow> Load d ext data opts = Some (Inr \<lparr>Tree = tree, Fields = fs\<rparr>)"
  proof (intro allI impI)
    fix d assume "depth (AMap tree) < d"
    then have "?d0 \<le> d" by simp
    from walkValue_mono[OF w this]
    show "Load d ext data opts = Some (Inr \<lparr>Tree = tree, Fields = fs\<rparr>)"
      by (simp add: Load_LoadTree[OF parse noid] LoadTree_walk)
  qed
  have b: "\<forall>pos s. node_at (AMap tree) pos = Some (AString s) \<and> isArmoredData s \<longrightarrow>
        \<lparr>Path = fst (visitArgs [] [] pos) @ [snd (visitArgs [] [] pos)], WasEncrypted = True,
         Armored = s, ASCIIQR = [], UsedRecipients = [], UsedPassphrase = False\<rparr> \<in> set fs"
  proof (intro allI impI, elim conjE)
    fix pos s
    assume at: "node_at (AMap tree) pos = Some (AString s)" and arm: "isArmoredData s"
    from load_reaches_unopened[OF w at arm Decrypt_no_identities]
    show "\<lparr>Path = fst (visitArgs [] [] pos) @ [snd (visitArgs [] [] pos)], WasEncrypted = True,
         Armored = s, ASCIIQR = [], UsedRecipients = [], UsedPassphrase = False\<rparr> \<in> set fs"
      by (simp add: loadMeta_def)
  qed
  from a b show ?thesis by blast
qed

theorem C4_load_graceful_degradation:
  assumes parse: "toml_Unmarshal ext data = Inr tree"
    and ids: "LoadIdentities ext (Keys opts) = Inr identities"
    and leaf: "node_at (AMap tree) pos = Some (AString s)"
    and arm: "isArmoredData s"
    and fail: "Decrypt ext s identities = Inl err"
    and rank: "\<And>c b c'. Decrypt ext c identities = Inr b \<Longrightarrow>
        c' \<in> set (strings_of (decodeJSON ext b)) \<Longrightarrow> isArmoredData c' \<Longrightarrow> rank c' < (rank c :: nat)"
  shows "\<exists>d res.
     Load d ext data opts = Some (Inr res) \<and>
     node_at (AMap (Tree res)) pos = Some (AString s) \<and>
     \<lparr>Path = fst (visitArgs [] [] pos) @ [snd (visitArgs [] [] pos)], WasEncrypted = True,
      Armored = s, ASCIIQR = [], UsedRecipients = [], UsedPassphrase = False\<rparr> \<in> set (Fields res) \<and>
     (\<forall>d' r. Load d' ext data opts = Some r \<longrightarrow> r = Inr res)"
proof -
  let ?V = "loadVisit ext identities"
  let ?n = "Suc (Max (insert 0 (rank ` set (strings_of (AMap tree)))))"
  have "\<exists>d. \<forall>p k fs. \<exists>r. walkValue d ?V p k (AMap tree) fs = Some r"
  proof (rule load_returns_ranked[where rank=rank and n="?n"])
    fix c b c'
    assume "Decrypt ext c identities = Inr b" and "c' \<in> set (strings_of (decodeJSON ext b))"
      and "isArmoredData c'"
    then show "rank c' < rank c" by (rule rank)
  next
    show "\<forall>c \<in> set (strings_of (AMap tree)). isArmoredData c \<longrightarrow> rank c < ?n"
    proof (intro ballI impI)
      fix c assume "c \<in> set (strings_of (AMap tree))"
      then have "rank c \<in> insert 0 (rank ` set (strings_of (AMap tree)))" by simp
      then have "rank c \<le> Max (insert 0 (rank ` set (strings_of (AMap tree))))"
        by (rule Max_ge[rotated]) simp
      then show "rank c < ?n" by simp
    qed
  qed
  then obtain d where "\<forall>p k fs. \<exists>r. walkValue d ?V p k (AMap tree) fs = Some r" ..
  then have "\<exists>r. walkValue d ?V [] [] (AMap tree) [] = Some r" by blast
  then obtain r0 where "walkValue d ?V [] [] (AMap tree) [] = Some r0" ..
  then obtain t fs where w: "walkValue d ?V [] [] (AMap tree) [] = Some (t, fs)"
    by (cases r0) simp
  from load_root_map[OF w] obtain m where t: "t = AMap m" by blast
  have L: "Load d ext data opts = Some (Inr \<lparr>Tree = m, Fields = fs\<rparr>)"
    using w t by (simp add: Load_LoadTree[OF parse ids] LoadTree_walk)
  have w': "walkValue d ?V [] [] (AMap tree) [] = Some (AMap m, fs)"
    using w t by simp
  have n: "node_at (AMap m) pos = Some (AString s)"
    and f: "loadMeta (fst (visitArgs [] [] pos)) (snd (visitArgs [] [] pos)) s \<in> set fs"
    using load_reaches_unopened[OF w' leaf arm fail] by blast+
  have det: "\<forall>d' r. Load d' ext data opts = Some r \<longrightarrow> r = Inr \<lparr>Tree = m, Fields = fs\<rparr>"
  proof (intro allI impI)
    fix d' r
    assume "Load d' ext data opts = Some r"
    then have a: "LoadTree d' ext tree identities = Some r"
      by (simp only: Load_LoadTree[OF parse ids])
    have b: "LoadTree d ext tree identities = Some (Inr \<lparr>Tree = m, Fields = fs\<rparr>)"
      using L by (simp only: Load_LoadTree[OF parse ids])
    from a b show "r = Inr \<lparr>Tree = m, Fields = fs\<rparr>"
      by (rule LoadTree_deterministic)
  qed
  have f': "\<lparr>Path = fst (visitArgs [] [] pos) @ [snd (visitArgs [] [] pos)], WasEncrypted = True,
      Armored = s, ASCIIQR = [], UsedRecipients = [], UsedPassphrase = False\<rparr> \<in> set fs"
    using f by (simp only: loadMeta_def)
  let ?res = "\<lparr>Tree = m, Fields = fs\<rparr>"
  have "Load d ext data opts = Some (Inr ?res) \<and>
     node_at (AMap (Tree ?res)) pos = Some (AString s) \<and>
     \<lparr>Path = fst (visitArgs [] [] pos) @ [snd (visitArgs [] [] pos)], WasEncrypted = True,
      Armored = s, ASCIIQR = [], UsedRecipients = [], UsedPassphrase = False\<rparr> \<in> set (Fields ?res) \<and>
     (\<forall>d' r. Load d' ext data opts = Some r \<longrightarrow> r = Inr ?res)"
  proof (intro conjI)
    show "Load d ext data opts = Some (Inr ?res)" by (rule L)
    show "node_at (AMap (Tree ?res)) pos = Some (AString s)" using n by simp
    show "\<lparr>Path = fst (visitArgs [] [] pos) @ [snd (visitArgs [] [] pos)], WasEncrypted = True,
      Armored = s, ASCIIQR = [], UsedRecipients = [], UsedPassphrase = False\<rparr> \<in> set (Fields ?res)"
      using f' by simp
    show "\<forall>d' r. Load d' ext data opts = Some r \<longrightarrow> r = Inr ?res" by (rule det)
  qed
  then show ?thesis
    by - (rule exI[of _ d], rule exI[of _ "?res"], assumption)
qed

section \<open>The visitor of Save\<close>

lemma saveVisit_grows:
  "set (recorded st) \<subseteq> set (recorded (snd (saveVisit ext opts rs p k y st)))"
  by (auto simp: saveVisit_def split: option.splits sum.splits any.splits)

lemma saveVisit_shrinks:
  "fst (fst (saveVisit ext opts rs p k y st)) = y \<or>
   \<not> is_container (fst (fst (saveVisit ext opts rs p k y st)))"
  by (auto simp: saveVisit_def split: option.splits sum.splits any.splits)

lemma saveVisit_unselected:
  "\<not> shouldEncryptField opts p k y \<Longrightarrow> saveVisit ext opts rs p k y st = ((y, True), st)"
  by (simp add: saveVisit_def)

lemma saveVisit_armored:
  assumes "shouldEncryptField opts p k (AString s)" and "isArmoredData s"
  shows "saveVisit ext opts rs p k (AString s) st =
     ((AString s, True), st\<lparr>recorded := recorded st @ [saveMeta rs p k s]\<rparr>)"
  using assms by (simp add: saveVisit_def armoredString_def)

lemma saveVisit_data:
  "(case y of AString strValue \<Rightarrow> Inr strValue | _ \<Rightarrow> json_Marshal ext y) = dataToEncrypt ext y"
  by (simp add: dataToEncrypt_def)

lemma saveVisit_failed:
  assumes "armoredString y = None"
    and "case dataToEncrypt ext y of Inl err \<Rightarrow> True | Inr data \<Rightarrow> \<forall>draw. isl (Encrypt ext draw data rs)"
  shows "fst (saveVisit ext opts rs p k y st) = (y, True) \<and>
         recorded (snd (saveVisit ext opts rs p k y st)) = recorded st"
proof (cases "shouldEncryptField opts p k y")
  case False
  then show ?thesis by (simp add: saveVisit_unselected)
next
  case True
  show ?thesis
  proof (cases "dataToEncrypt ext y")
    case (Inl err)
    with True assms(1) show ?thesis by (simp add: saveVisit_def saveVisit_data)
  next
    case (Inr data)
    with assms(2) have "isl (Encrypt ext (draws st) data rs)" by simp
    then obtain e where "Encrypt ext (draws st) data rs = Inl e" by (cases "Encrypt ext (draws st) data rs") auto
    with True assms(1) Inr show ?thesis by (simp add: saveVisit_def saveVisit_data)
  qed
qed

lemma SaveTree_walk:
  assumes "LoadRecipients ext (Keys opts) = Inr rs" and "rs \<noteq> []"
  shows "SaveTree d ext tree opts =
     (case walkValue d (saveVisit ext (setDefaults opts) rs) [] [] tree \<lparr>recorded = [], draws = 0\<rparr> of
        None \<Rightarrow> None
      | Some (t, st) \<Rightarrow> Some (Inr (t, recorded st)))"
  using assms by (simp add: SaveTree_def Walk_def Keys_setDefaults)

lemma Save_SaveTree:
  assumes "SaveTree d ext tree opts = Some (Inr (t, fs))"
  shows "Save d ext tree opts =
     (case toml_Encode ext t of
        Inl err \<Rightarrow> Some (Inl (Wrap ''failed to marshal TOML'' err))
      | Inr tomlData \<Rightarrow> Some (Inr (tomlData, fs)))"
  using assms by (simp add: Save_def)

lemma save_walk_returns:
  assumes "depth v < d"
  shows "\<exists>r. walkValue d (saveVisit ext opts rs) p k v st = Some r"
  using walk_returns(1)[where visit="saveVisit ext opts rs" and v=v, OF saveVisit_shrinks] assms
  by blast

lemma save_reaches:
  assumes run: "walkValue d (saveVisit ext opts rs) p k v st = Some (v', st')"
    and at: "node_at v pos = Some x"
    and reach: "reaches (saveVisit ext opts rs) p k v pos"
  shows "\<exists>d0 st0 x' st1.
     walkValue (Suc d0) (saveVisit ext opts rs) (fst (visitArgs p k pos)) (snd (visitArgs p k pos)) x st0
       = Some (x', st1) \<and>
     node_at v' pos = Some x' \<and> set (recorded st1) \<subseteq> set (recorded st')"
proof (rule walk_reaches[where obs="\<lambda>s. set (recorded s)" and visit="saveVisit ext opts rs", OF _ run at])
  show "\<And>p k y s. set (recorded s) \<subseteq> set (recorded (snd (saveVisit ext opts rs p k y s)))"
    by (rule saveVisit_grows)
next
  fix q y s'
  assume "strict_prefix q pos" and "node_at v q = Some y"
  with reach show "fst (saveVisit ext opts rs (fst (visitArgs p k q)) (snd (visitArgs p k q)) y s') = (y, True)"
    by (rule reaches_prefix)
qed

theorem C6_save_keeps_ciphertext:
  assumes rcp: "LoadRecipients ext (Keys opts) = Inr recipients"
    and ne: "recipients \<noteq> []"
    and leaf: "node_at tree pos = Some (AString s)"
    and arm: "isArmoredData s"
    and sel: "shouldEncryptField (setDefaults opts) (fst (visitArgs [] [] pos)) (snd (visitArgs [] [] pos)) (AString s)"
    and reach: "reaches (saveVisit ext (setDefaults opts) recipients) [] [] tree pos"
    and d: "depth tree < d"
  shows "\<exists>tree' fs.
     SaveTree d ext tree opts = Some (Inr (tree', fs)) \<and>
     node_at tree' pos = Some (AString s) \<and>
     \<lparr>Path = fst (visitArgs [] [] pos) @ [snd (visitArgs [] [] pos)], WasEncrypted = True,
      Armored = s, ASCIIQR = [], UsedRecipients = GetRecipientStrings recipients,
      UsedPassphrase = HasPassphraseRecipient recipients\<rparr> \<in> set fs \<and>
     Save d ext tree opts =
       (case toml_Encode ext tree' of
          Inl err \<Rightarrow> Some (Inl (Wrap ''failed to marshal TOML'' err))
        | Inr tomlData \<Rightarrow> Some (Inr (tomlData, fs)))"
proof -
  let ?V = "saveVisit ext (setDefaults opts) recipients"
  let ?p = "fst (visitArgs [] [] pos)" and ?k = "snd (visitArgs [] [] pos)"
  from save_walk_returns[OF d] obtain r where
    "walkValue d ?V [] [] tree \<lparr>recorded = [], draws = 0\<rparr> = Some r" by blast
  then obtain t st' where w: "walkValue d ?V [] [] tree \<lparr>recorded = [], draws = 0\<rparr> = Some (t, st')"
    by (cases r) simp
  then have S: "SaveTree d ext tree opts = Some (Inr (t, recorded st'))"
    by (simp add: SaveTree_walk[OF rcp ne])
  from save_reaches[OF w leaf reach] obtain d0 st0 x' st1 where
    A: "walkValue (Suc d0) ?V ?p ?k (AString s) st0 = Some (x', st1)"
    and B: "node_at t pos = Some x'" and C: "set (recorded st1) \<subseteq> set (recorded st')"
    by blast
  from A have x': "x' = AString s"
    and st1: "st1 = st0\<lparr>recorded := recorded st0 @ [saveMeta recipients ?p ?k s]\<rparr>"
    by (simp_all add: saveVisit_armored[OF sel arm])
  from st1 C have "saveMeta recipients ?p ?k s \<in> set (recorded st')" by auto
  then have R: "\<lparr>Path = ?p @ [?k], WasEncrypted = True,
      Armored = s, ASCIIQR = [], UsedRecipients = GetRecipientStrings recipients,
      UsedPassphrase = HasPassphraseRecipient recipients\<rparr> \<in> set (recorded st')"
    by (simp only: saveMeta_def)
  have "SaveTree d ext tree opts = Some (Inr (t, recorded st')) \<and>
     node_at t pos = Some (AString s) \<and>
     \<lparr>Path = ?p @ [?k], WasEncrypted = True,
      Armored = s, ASCIIQR = [], UsedRecipients = GetRecipientStrings recipients,
      UsedPassphrase = HasPassphraseRecipient recipients\<rparr> \<in> set (recorded st') \<and>
     Save d ext tree opts =
       (case toml_Encode ext t of
          Inl err \<Rightarrow> Some (Inl (Wrap ''failed to marshal TOML'' err))
        | Inr tomlData \<Rightarrow> Some (Inr (tomlData, recorded st')))"
  proof (intro conjI)
    show "SaveTree d ext tree opts = Some (Inr (t, recorded st'))" by (rule S)
    show "node_at t pos = Some (AString s)" using B x' by simp
    show "\<lparr>Path = ?p @ [?k], WasEncrypted = True,
      Armored = s, ASCIIQR = [], UsedRecipients = GetRecipientStrings recipients,
      UsedPassphrase = HasPassphraseRecipient recipients\<rparr> \<in> set (recorded st')" by (rule R)
    show "Save d ext tree opts =
       (case toml_Encode ext t of
          Inl err \<Rightarrow> Some (Inl (Wrap ''failed to marshal TOML'' err))
        | Inr tomlData \<Rightarrow> Some (Inr (tomlData, recorded st')))"
      by (rule Save_SaveTree[OF S])
  qed
  then show ?thesis
    by - (rule exI[of _ t], rule exI[of _ "recorded st'"], assumption)
qed

theorem C8_save_failure_leaves_leaf:
  assumes rcp: "LoadRecipients ext (Keys opts) = Inr recipients"
    and ne: "recipients \<noteq> []"
    and leaf: "node_at tree pos = Some x"
    and scalar: "\<not> is_container x"
    and sel: "shouldEncryptField (setDefaults opts) (fst (visitArgs [] [] pos)) (snd (visitArgs [] [] pos)) x"
    and plain: "armoredString x = None"
    and fails: "case dataToEncrypt ext x of
                  Inl err \<Rightarrow> True
                | Inr data \<Rightarrow> \<forall>draw. isl (Encrypt ext draw data recipients)"
    and reach: "reaches (saveVisit ext (setDefaults opts) recipients) [] [] tree pos"
    and d: "depth tree < d"
  shows "\<exists>tree' fs.
     SaveTree d ext tree opts = Some (Inr (tree', fs)) \<and>
     node_at tree' pos = Some x \<and>
     (\<forall>st. recorded (snd (saveVisit ext (setDefaults opts) recipients
              (fst (visitArgs [] [] pos)) (snd (visitArgs [] [] pos)) x st)) = recorded st) \<and>
     Save d ext tree opts =
       (case toml_Encode ext tree' of
          Inl err \<Rightarrow> Some (Inl (Wrap ''failed to marshal TOML'' err))
        | Inr tomlData \<Rightarrow> Some (Inr (tomlData, fs)))"
proof -
  let ?V = "saveVisit ext (setDefaults opts) recipients"
  let ?p = "fst (visitArgs [] [] pos)" and ?k = "snd (visitArgs [] [] pos)"
  from save_walk_returns[OF d] obtain r where
    "walkValue d ?V [] [] tree \<lparr>recorded = [], draws = 0\<rparr> = Some r" by blast
  then obtain t st' where w: "walkValue d ?V [] [] tree \<lparr>recorded = [], draws = 0\<rparr> = Some (t, st')"
    by (cases r) simp
  then have S: "SaveTree d ext tree opts = Some (Inr (t, recorded st'))"
    by (simp add: SaveTree_walk[OF rcp ne])
  from save_reaches[OF w leaf reach] obtain d0 st0 x' st1 where
    A: "walkValue (Suc d0) ?V ?p ?k x st0 = Some (x', st1)"
    and B: "node_at t pos = Some x'"
    by blast
  have F: "\<And>st. fst (?V ?p ?k x st) = (x, True) \<and> recorded (snd (?V ?p ?k x st)) = recorded st"
    by (rule saveVisit_failed[OF plain fails])
  obtain st2 where v: "?V ?p ?k x st0 = ((x, True), st2)"
    using F[of st0] by (cases "?V ?p ?k x st0") auto
  from walkValue_leaf[where visit="?V", OF v scalar] A have x': "x' = x" by simp
  have "SaveTree d ext tree opts = Some (Inr (t, recorded st')) \<and>
     node_at t pos = Some x \<and>
     (\<forall>st. recorded (snd (?V ?p ?k x st)) = recorded st) \<and>
     Save d ext tree opts =
       (case toml_Encode ext t of
          Inl err \<Rightarrow> Some (Inl (Wrap ''failed to marshal TOML'' err))
        | Inr tomlData \<Rightarrow> Some (Inr (tomlData, recorded st')))"
  proof (intro conjI)
    show "SaveTree d ext tree opts = Some (Inr (t, recorded st'))" by (rule S)
    show "node_at t pos = Some x" using B x' by simp
    show "\<forall>st. recorded (snd (?V ?p ?k x st)) = recorded st" using F by blast
    show "Save d ext tree opts =
       (case toml_Encode ext t of
          Inl err \<Rightarrow> Some (Inl (Wrap ''failed to marshal TOML'' err))
        | Inr tomlData \<Rightarrow> Some (Inr (tomlData, recorded st')))"
      by (rule Save_SaveTree[OF S])
  qed
  then show ?thesis
    by - (rule exI[of _ t], rule exI[of _ "recorded st'"], assumption)
qed

section \<open>Shape\<close>

lemma keeps_shape_save:
  assumes "\<forall>n \<in> set (visited p0 k0 v). case n of (p, k, y) \<Rightarrow> is_container y \<longrightarrow> \<not> shouldEncryptField opts p k y"
  shows "\<forall>n \<in> set (visited p0 k0 v). keeps_shape (saveVisit ext opts rs) n"
proof
  fix n assume n: "n \<in> set (visited p0 k0 v)"
  obtain p k y where pky: "n = (p, k, y)" by (cases n)
  show "keeps_shape (saveVisit ext opts rs) n"
    unfolding pky keeps_shape_def
  proof (clarsimp, intro conjI impI)
    fix st
    assume "is_container y"
    with assms n pky have "\<not> shouldEncryptField opts p k y" by auto
    then show "fst (fst (saveVisit ext opts rs p k y st)) = y"
      by (simp add: saveVisit_unselected)
  next
    fix st
    assume "\<not> is_container y"
    with saveVisit_shrinks[of ext opts rs p k y st]
    show "\<not> is_container (fst (fst (saveVisit ext opts rs p k y st)))" by auto
  qed
qed

lemma keeps_shape_load:
  assumes "\<forall>n \<in> set (visited p0 k0 v). case n of (p, k, y) \<Rightarrow> \<not> is_container y \<longrightarrow> \<not> is_container (loadValue ext ids y)"
  shows "\<forall>n \<in> set (visited p0 k0 v). keeps_shape (loadVisit ext ids) n"
proof
  fix n assume n: "n \<in> set (visited p0 k0 v)"
  obtain p k y where pky: "n = (p, k, y)" by (cases n)
  show "keeps_shape (loadVisit ext ids) n"
    unfolding pky keeps_shape_def
  proof (clarsimp, intro conjI impI)
    fix st
    assume "is_container y"
    then show "fst (fst (loadVisit ext ids p k y st)) = y"
      by (simp add: loadVisit_container)
  next
    fix st
    assume "\<not> is_container y"
    with assms n pky have "\<not> is_container (loadValue ext ids y)" by auto
    then show "\<not> is_container (fst (fst (loadVisit ext ids p k y st)))"
      by (simp add: loadVisit_value)
  qed
qed

theorem C3_shape_preserved:
  assumes rcp: "LoadRecipients ext (Keys opts) = Inr recipients"
    and ne: "recipients \<noteq> []"
    and nosel: "\<forall>n \<in> set (visited [] [] tree).
        case n of (p, k, y) \<Rightarrow> is_container y \<longrightarrow> \<not> shouldEncryptField (setDefaults opts) p k y"
    and nodec: "\<forall>n \<in> set (visited [] [] (AMap m)).
        case n of (p, k, y) \<Rightarrow> \<not> is_container y \<longrightarrow> \<not> is_container (loadValue ext identities y)"
    and d: "depth tree < d"
    and d': "depth (AMap m) < d'"
  shows "(\<exists>tree' fs. SaveTree d ext tree opts = Some (Inr (tree', fs)) \<and> shape_of tree' = shape_of tree) \<and>
         (\<exists>res. LoadTree d' ext m identities = Some (Inr res) \<and> shape_of (AMap (Tree res)) = shape_of (AMap m))"
proof
  let ?V = "saveVisit ext (setDefaults opts) recipients"
  from walk_shape(1)[where visit="?V" and path="[]" and key="[]" and v=tree]
    keeps_shape_save[OF nosel] d
  obtain t st' where w: "walkValue d ?V [] [] tree \<lparr>recorded = [], draws = 0\<rparr> = Some (t, st')"
    and sh: "shape_of t = shape_of tree"
    by blast
  from w have "SaveTree d ext tree opts = Some (Inr (t, recorded st'))"
    by (simp add: SaveTree_walk[OF rcp ne])
  with sh show "\<exists>tree' fs. SaveTree d ext tree opts = Some (Inr (tree', fs)) \<and> shape_of tree' = shape_of tree"
    by blast
next
  let ?V = "loadVisit ext identities"
  from walk_shape(1)[where visit="?V" and path="[]" and key="[]" and v="AMap m"]
    keeps_shape_load[OF nodec] d'
  obtain t fs where w: "walkValue d' ?V [] [] (AMap m) [] = Some (t, fs)"
    and sh: "shape_of t = shape_of (AMap m)"
    by blast
  from load_root_map[OF w] obtain m' where t: "t = AMap m'" by blast
  with w have "LoadTree d' ext m identities = Some (Inr \<lparr>Tree = m', Fields = fs\<rparr>)"
    by (simp add: LoadTree_walk)
  moreover have "shape_of (AMap (Tree \<lparr>Tree = m', Fields = fs\<rparr>)) = shape_of (AMap m)"
    using sh t by simp
  ultimately show "\<exists>res. LoadTree d' ext m identities = Some (Inr res) \<and>
      shape_of (AMap (Tree res)) = shape_of (AMap m)"
    by blast
qed

section \<open>FindFields\<close>

lemma found_Nil: "found predicate [] = []"
  by (simp add: found_def)

lemma found_append: "found predicate (a @ b) = found predicate a @ found predicate b"
  by (simp add: found_def)

lemma found_visited_map:
  "found predicate (visited path key (AMap m)) =
     found predicate [(path, key, AMap m)] @ found predicate (visitedMap (currentPath path key) m)"
  by (simp add: found_def)

lemma found_visited_slice:
  "found predicate (visited path key (ASlice s)) =
     found predicate [(path, key, ASlice s)] @ found predicate (visitedSlice (currentPath path key) 0 s)"
  by (simp add: found_def)

lemma findVisit_found:
  "findVisit predicate p k v st = ((v, True), st @ found predicate [(p, k, v)])"
  by (simp add: findVisit_def found_def)

lemma find_leaf:
  assumes "\<not> is_container v"
  shows "\<forall>d st. depth v < d \<longrightarrow>
     walkValue d (findVisit predicate) path key v st = Some (v, st @ found predicate (visited path key v))"
proof (intro allI impI)
  fix d st assume "depth v < d"
  then obtain d0 where d: "d = Suc d0" by (cases d) auto
  show "walkValue d (findVisit predicate) path key v st = Some (v, st @ found predicate (visited path key v))"
    using walkValue_leaf[where visit="findVisit predicate", OF findVisit_found assms]
    by (simp add: d visited_leaf[OF assms])
qed

lemma find_walk:
  shows "\<forall>d st. depth v < d \<longrightarrow>
     walkValue d (findVisit predicate) path key v st = Some (v, st @ found predicate (visited path key v))"
    and "\<forall>d st. depthMap m < d \<longrightarrow>
     walkMapLoop (walkValue d (findVisit predicate)) cp m st = Some (m, st @ found predicate (visitedMap cp m))"
    and "\<forall>d st. depthSlice s < d \<longrightarrow>
     walkSliceLoop (walkValue d (findVisit predicate)) cp i s st
       = Some (s, st @ found predicate (visitedSlice cp i s))"
proof (induction path key v and cp m and cp i s rule: visited_visitedMap_visitedSlice.induct)
  case (1 path key m)
  show ?case
  proof (intro allI impI)
    fix d st assume "depth (AMap m) < d"
    then obtain d0 where d: "d = Suc d0" and dm: "depthMap m < d0" by (cases d) auto
    from 1 dm have "walkMapLoop (walkValue d0 (findVisit predicate)) (currentPath path key) m
        (st @ found predicate [(path, key, AMap m)])
      = Some (m, (st @ found predicate [(path, key, AMap m)]) @
           found predicate (visitedMap (currentPath path key) m))"
      by blast
    then show "walkValue d (findVisit predicate) path key (AMap m) st
        = Some (AMap m, st @ found predicate (visited path key (AMap m)))"
      by (simp add: d findVisit_found walkMap_def found_visited_map del: visited.simps)
  qed
next
  case (2 path key s)
  show ?case
  proof (intro allI impI)
    fix d st assume "depth (ASlice s) < d"
    then obtain d0 where d: "d = Suc d0" and dm: "depthSlice s < d0" by (cases d) auto
    from 2 dm have "walkSliceLoop (walkValue d0 (findVisit predicate)) (currentPath path key) 0 s
        (st @ found predicate [(path, key, ASlice s)])
      = Some (s, (st @ found predicate [(path, key, ASlice s)]) @
           found predicate (visitedSlice (currentPath path key) 0 s))"
      by blast
    then show "walkValue d (findVisit predicate) path key (ASlice s) st
        = Some (ASlice s, st @ found predicate (visited path key (ASlice s)))"
      by (simp add: d findVisit_found walkSlice_def found_visited_slice del: visited.simps)
  qed
next
  case (4 cp)
  show ?case by (simp add: found_Nil)
next
  case (5 cp k v m)
  show ?case
  proof (intro allI impI)
    fix d st assume "depthMap ((k, v) # m) < d"
    then have dv: "depth v < d" and dm: "depthMap m < d" by auto
    from 5(1) dv have a: "walkValue d (findVisit predicate) cp k v st
        = Some (v, st @ found predicate (visited cp k v))" by blast
    from 5(2) dm have b: "walkMapLoop (walkValue d (findVisit predicate)) cp m
          (st @ found predicate (visited cp k v))
        = Some (m, (st @ found predicate (visited cp k v)) @ found predicate (visitedMap cp m))"
      by blast
    show "walkMapLoop (walkValue d (findVisit predicate)) cp ((k, v) # m) st
        = Some ((k, v) # m, st @ found predicate (visitedMap cp ((k, v) # m)))"
      using a b by (simp add: found_append)
  qed
next
  case (6 cp i)
  show ?case by (simp add: found_Nil)
next
  case (7 cp i v s)
  show ?case
  proof (intro allI impI)
    fix d st assume "depthSlice (v # s) < d"
    then have dv: "depth v < d" and dm: "depthSlice s < d" by auto
    from 7(1) dv have a: "walkValue d (findVisit predicate) cp (indexKey i) v st
        = Some (v, st @ found predicate (visited cp (indexKey i) v))" by blast
    from 7(2) dm have b: "walkSliceLoop (walkValue d (findVisit predicate)) cp (Suc i) s
          (st @ found predicate (visited cp (indexKey i) v))
        = Some (s, (st @ found predicate (visited cp (indexKey i) v)) @
             found predicate (visitedSlice cp (Suc i) s))"
      by blast
    show "walkSliceLoop (walkValue d (findVisit predicate)) cp i (v # s) st
        = Some (v # s, st @ found predicate (visitedSlice cp i (v # s)))"
      using a b by (simp add: found_append)
  qed
qed (rule find_leaf, simp)+

lemma FindFields_visited:
  assumes "depth data < d"
  shows "FindFields d data predicate = Some (found predicate (visited [] [] data))"
  using find_walk(1)[where v=data and path="[]" and key="[]" and predicate=predicate] assms
  by (simp add: FindFields_def Walk_def)


section \<open>Paths\<close>

lemma addressed_leaf:
  assumes "\<not> is_container v"
  shows "(\<forall>n \<in> set (visited path key v). go_node n \<and> named_children n) \<longrightarrow>
     (is_container v \<longrightarrow> key \<noteq> []) \<longrightarrow>
     (\<forall>n \<in> set (visited path key v). addressed (path @ [key]) v n)"
  using assms by (simp add: visited_leaf addressed_def)

lemma GetValue_entry:
  assumes "distinct (map fst m)" and "(k1, v1) \<in> set m"
  shows "GetValue (AMap m) (k1 # rel) = GetValue v1 rel"
  using assms by simp

lemma addressed_walk:
  shows "(\<forall>n \<in> set (visited path key v). go_node n \<and> named_children n) \<longrightarrow>
     (is_container v \<longrightarrow> key \<noteq> []) \<longrightarrow>
     (\<forall>n \<in> set (visited path key v). addressed (path @ [key]) v n)"
    and "(\<forall>n \<in> set (visitedMap cp m). go_node n \<and> named_children n) \<longrightarrow>
     list_all (\<lambda>(k', c). is_container c \<longrightarrow> k' \<noteq> []) m \<longrightarrow>
     (\<forall>n \<in> set (visitedMap cp m). \<exists>k1 v1. (k1, v1) \<in> set m \<and> addressed (cp @ [k1]) v1 n)"
    and "(\<forall>n \<in> set (visitedSlice cp i s). go_node n \<and> named_children n) \<longrightarrow>
     (\<forall>n \<in> set (visitedSlice cp i s). \<exists>j. j < length s \<and> addressed (cp @ [indexKey (i + j)]) (s ! j) n)"
proof (induction path key v and cp m and cp i s rule: visited_visitedMap_visitedSlice.induct)
  case (1 path key m)
  show ?case
  proof (intro impI ballI)
    fix n
    assume H: "\<forall>n \<in> set (visited path key (AMap m)). go_node n \<and> named_children n"
      and K: "is_container (AMap m) \<longrightarrow> key \<noteq> []"
      and n: "n \<in> set (visited path key (AMap m))"
    from K have cp: "currentPath path key = path @ [key]" by (simp add: currentPath_def)
    from H have root: "go_node (path, key, AMap m)" "named_children (path, key, AMap m)" by simp_all
    then have dist: "distinct (map fst m)"
      and named: "list_all (\<lambda>(k', c). is_container c \<longrightarrow> k' \<noteq> []) m"
      by (simp_all add: go_node_def named_children_def)
    from n consider "n = (path, key, AMap m)" | "n \<in> set (visitedMap (path @ [key]) m)"
      by (auto simp: cp)
    then show "addressed (path @ [key]) (AMap m) n"
    proof cases
      case 1
      then show ?thesis by (simp add: addressed_def)
    next
      case 2
      from H have "\<forall>n \<in> set (visitedMap (path @ [key]) m). go_node n \<and> named_children n"
        by (simp add: cp)
      with "1.IH" named 2 cp obtain k1 v1 where
        in_m: "(k1, v1) \<in> set m" and a: "addressed ((path @ [key]) @ [k1]) v1 n"
        by auto
      obtain p k y where pky: "n = (p, k, y)" by (cases n)
      from a pky obtain rel where
        r: "p @ [k] = ((path @ [key]) @ [k1]) @ rel" and g: "GetValue v1 rel = (y, True)"
        by (auto simp: addressed_def)
      have "GetValue (AMap m) (k1 # rel) = (y, True)"
        using GetValue_entry[OF dist in_m] g by simp
      moreover have "p @ [k] = (path @ [key]) @ (k1 # rel)" using r by simp
      ultimately show ?thesis unfolding addressed_def pky by blast
    qed
  qed
next
  case (2 path key s)
  show ?case
  proof (intro impI ballI)
    fix n
    assume H: "\<forall>n \<in> set (visited path key (ASlice s)). go_node n \<and> named_children n"
      and K: "is_container (ASlice s) \<longrightarrow> key \<noteq> []"
      and n: "n \<in> set (visited path key (ASlice s))"
    from K have cp: "currentPath path key = path @ [key]" by (simp add: currentPath_def)
    from H have "go_node (path, key, ASlice s)" by simp
    then have len: "length s < 2 ^ 63" by (simp add: go_node_def)
    from n consider "n = (path, key, ASlice s)" | "n \<in> set (visitedSlice (path @ [key]) 0 s)"
      by (auto simp: cp)
    then show "addressed (path @ [key]) (ASlice s) n"
    proof cases
      case 1
      then show ?thesis by (simp add: addressed_def)
    next
      case 2
      from H have "\<forall>n \<in> set (visitedSlice (path @ [key]) 0 s). go_node n \<and> named_children n"
        by (simp add: cp)
      with "2.IH" 2 cp obtain j where
        j: "j < length s" and a: "addressed ((path @ [key]) @ [indexKey (0 + j)]) (s ! j) n"
        by auto
      obtain p k y where pky: "n = (p, k, y)" by (cases n)
      from a pky obtain rel where
        r: "p @ [k] = ((path @ [key]) @ [indexKey j]) @ rel" and g: "GetValue (s ! j) rel = (y, True)"
        by (auto simp: addressed_def)
      have "GetValue (ASlice s) (indexKey j # rel) = (y, True)"
        using GetValue_index[OF j len] g by simp
      moreover have "p @ [k] = (path @ [key]) @ (indexKey j # rel)" using r by simp
      ultimately show ?thesis unfolding addressed_def pky by blast
    qed
  qed
next
  case (4 cp)
  show ?case by simp
next
  case (5 cp k v m)
  show ?case
  proof (intro impI ballI)
    fix n
    assume H: "\<forall>n \<in> set (visitedMap cp ((k, v) # m)). go_node n \<and> named_children n"
      and N: "list_all (\<lambda>(k', c). is_container c \<longrightarrow> k' \<noteq> []) ((k, v) # m)"
      and n: "n \<in> set (visitedMap cp ((k, v) # m))"
    from n consider "n \<in> set (visited cp k v)" | "n \<in> set (visitedMap cp m)" by auto
    then show "\<exists>k1 v1. (k1, v1) \<in> set ((k, v) # m) \<and> addressed (cp @ [k1]) v1 n"
    proof cases
      case 1
      from H have "\<forall>n \<in> set (visited cp k v). go_node n \<and> named_children n" by simp
      moreover from N have "is_container v \<longrightarrow> k \<noteq> []" by simp
      ultimately have "addressed (cp @ [k]) v n" using "5.IH"(1) 1 by blast
      then show ?thesis by auto
    next
      case 2
      from H have "\<forall>n \<in> set (visitedMap cp m). go_node n \<and> named_children n" by simp
      moreover from N have "list_all (\<lambda>(k', c). is_container c \<longrightarrow> k' \<noteq> []) m" by simp
      ultimately obtain k1 v1 where "(k1, v1) \<in> set m" and "addressed (cp @ [k1]) v1 n"
        using "5.IH"(2) 2 by blast
      then show ?thesis by auto
    qed
  qed
next
  case (6 cp i)
  show ?case by simp
next
  case (7 cp i v s)
  show ?case
  proof (intro impI ballI)
    fix n
    assume H: "\<forall>n \<in> set (visitedSlice cp i (v # s)). go_node n \<and> named_children n"
      and n: "n \<in> set (visitedSlice cp i (v # s))"
    from n consider "n \<in> set (visited cp (indexKey i) v)" | "n \<in> set (visitedSlice cp (Suc i) s)"
      by auto
    then show "\<exists>j. j < length (v # s) \<and> addressed (cp @ [indexKey (i + j)]) ((v # s) ! j) n"
    proof cases
      case 1
      from H have "\<forall>n \<in> set (visited cp (indexKey i) v). go_node n \<and> named_children n" by simp
      moreover have "is_container v \<longrightarrow> indexKey i \<noteq> []" by (simp add: indexKey_nonempty)
      ultimately have "addressed (cp @ [indexKey i]) v n" using "7.IH"(1) 1 by blast
      then have "0 < length (v # s) \<and> addressed (cp @ [indexKey (i + 0)]) ((v # s) ! 0) n"
        by simp
      then show ?thesis by blast
    next
      case 2
      from H have "\<forall>n \<in> set (visitedSlice cp (Suc i) s). go_node n \<and> named_children n" by simp
      then obtain j where "j < length s" and "addressed (cp @ [indexKey (Suc i + j)]) (s ! j) n"
        using "7.IH"(2) 2 by blast
      then have "Suc j < length (v # s) \<and> addressed (cp @ [indexKey (i + Suc j)]) ((v # s) ! Suc j) n"
        by simp
      then show ?thesis by blast
    qed
  qed
qed (rule addressed_leaf, simp)+


theorem C9_paths_resolve:
  assumes go: "\<forall>n \<in> set (visited [] [] T). go_node n"
    and named: "\<forall>n \<in> set (visited [] [] T). named_children n"
    and root: "\<not> predicate [] [] T"
    and d: "depth T < d"
  shows "\<exists>results. FindFields d T predicate = Some results \<and>
     (\<forall>fi \<in> set results. GetValue T (Path_fi fi) = (Value_fi fi, True))"
proof -
  have F: "FindFields d T predicate = Some (found predicate (visited [] [] T))"
    using d by (rule FindFields_visited)
  have H: "\<forall>n \<in> set (visited [] [] T). go_node n \<and> named_children n"
    using go named by blast
  have A: "\<And>p k y. (p, k, y) \<in> set (visited [] [] T) \<Longrightarrow> (p, k, y) \<noteq> ([], [], T) \<Longrightarrow>
      GetValue T (p @ [k]) = (y, True)"
  proof -
    fix p k y
    assume n: "(p, k, y) \<in> set (visited [] [] T)" and nr: "(p, k, y) \<noteq> ([], [], T)"
    show "GetValue T (p @ [k]) = (y, True)"
    proof (cases T)
      case (AMap m)
      from H AMap have dist: "distinct (map fst m)"
        and nm: "list_all (\<lambda>(k', c). is_container c \<longrightarrow> k' \<noteq> []) m"
        by (simp_all add: go_node_def named_children_def)
      from n nr AMap have "(p, k, y) \<in> set (visitedMap [] m)" by (auto simp: currentPath_def)
      moreover from H AMap have "\<forall>n \<in> set (visitedMap [] m). go_node n \<and> named_children n"
        by (simp add: currentPath_def)
      ultimately obtain k1 v1 where in_m: "(k1, v1) \<in> set m"
        and a: "addressed ([] @ [k1]) v1 (p, k, y)"
        using addressed_walk(2)[where cp="[]" and m=m] nm by blast
      from a obtain rel where r: "p @ [k] = k1 # rel" and g: "GetValue v1 rel = (y, True)"
        by (auto simp: addressed_def)
      show ?thesis using GetValue_entry[OF dist in_m] g by (simp add: AMap r)
    next
      case (ASlice s)
      from H ASlice have len: "length s < 2 ^ 63" by (simp add: go_node_def)
      from n nr ASlice have "(p, k, y) \<in> set (visitedSlice [] 0 s)" by (auto simp: currentPath_def)
      moreover from H ASlice have "\<forall>n \<in> set (visitedSlice [] 0 s). go_node n \<and> named_children n"
        by (simp add: currentPath_def)
      ultimately obtain j where j: "j < length s"
        and a: "addressed ([] @ [indexKey (0 + j)]) (s ! j) (p, k, y)"
        using addressed_walk(3)[where cp="[]" and s=s and i=0] by blast
      from a obtain rel where r: "p @ [k] = indexKey j # rel" and g: "GetValue (s ! j) rel = (y, True)"
        by (auto simp: addressed_def)
      show ?thesis using GetValue_index[OF j len] g by (simp add: ASlice r)
    qed (use n nr in auto)
  qed
  have "\<forall>fi \<in> set (found predicate (visited [] [] T)). GetValue T (Path_fi fi) = (Value_fi fi, True)"
  proof
    fix fi assume "fi \<in> set (found predicate (visited [] [] T))"
    then obtain p k y where n: "(p, k, y) \<in> set (visited [] [] T)" and pr: "predicate p k y"
      and fi: "fi = \<lparr>Path_fi = p @ [k], Key_fi = k, Value_fi = y\<rparr>"
      by (auto simp: found_def)
    from pr root have "(p, k, y) \<noteq> ([], [], T)" by auto
    from A[OF n this] show "GetValue T (Path_fi fi) = (Value_fi fi, True)"
      by (simp add: fi)
  qed
  with F show ?thesis by blast
qed

section \<open>Round trip\<close>

lemma saveVisit_cases:
  obtains (kept) st1 where "saveVisit ext opts rs p k y st = ((y, True), st1)"
  | (sealed) b c st1 where "shouldEncryptField opts p k y" and "armoredString y = None"
      and "dataToEncrypt ext y = Inr b" and "Encrypt ext (draws st) b rs = Inr c"
      and "saveVisit ext opts rs p k y st = ((AString c, True), st1)"
proof (cases "shouldEncryptField opts p k y")
  case False
  then show ?thesis using kept by (simp add: saveVisit_unselected)
next
  case sel: True
  show ?thesis
  proof (cases "armoredString y")
    case (Some s)
    with sel show ?thesis using kept by (simp add: saveVisit_def)
  next
    case None
    show ?thesis
    proof (cases "dataToEncrypt ext y")
      case (Inl err)
      with sel None show ?thesis using kept by (simp add: saveVisit_def saveVisit_data)
    next
      case (Inr b)
      show ?thesis
      proof (cases "Encrypt ext (draws st) b rs")
        case (Inl err)
        with sel None Inr show ?thesis using kept by (simp add: saveVisit_def saveVisit_data)
      next
        case c: (Inr c)
        with sel None Inr show ?thesis using sealed by (simp add: saveVisit_def saveVisit_data)
      qed
    qed
  qed
qed

lemma roundtrip_keeps_load:
  assumes "\<forall>n \<in> set ns. roundtrip_node ext opts n"
  shows "\<forall>n \<in> set ns. keeps_value (loadVisit ext ids) n"
proof
  fix n assume "n \<in> set ns"
  with assms have r: "roundtrip_node ext opts n" by blast
  obtain p k y where n: "n = (p, k, y)" by (cases n)
  from r have "armoredString y = None"
    by (cases y) (simp_all add: roundtrip_node_def n armoredString_def)
  then show "keeps_value (loadVisit ext ids) n"
    by (simp add: keeps_value_def n loadVisit_value loadValue_other)
qed

lemma load_opened:
  assumes "isArmoredData c" and "Decrypt ext c ids = Inr b"
  shows "loadVisit ext ids p k (AString c) fs = ((decodeJSON ext b, True), fs @ [loadMeta p k c])"
  using assms by (simp add: loadVisit_def armoredString_def)

lemma load_plain:
  assumes "armoredString y = None"
  shows "loadVisit ext ids p k y fs = ((y, True), fs)"
  using assms by (simp add: loadVisit_def)

lemma roundtrip_leaf:
  assumes seal_open: "\<And>draw data c. Encrypt ext draw data rs = Inr c \<Longrightarrow>
      isArmoredData c \<and> Decrypt ext c ids = Inr data"
    and leaf: "\<not> is_container v"
  shows "(\<forall>n \<in> set (visited path key v). roundtrip_node ext opts n) \<longrightarrow>
     (\<forall>d st v' st'. walkValue d (saveVisit ext opts rs) path key v st = Some (v', st') \<longrightarrow>
        (\<forall>d' fs. depth v < d' \<longrightarrow> (\<exists>fs'. walkValue d' (loadVisit ext ids) path key v' fs = Some (v, fs'))))"
proof (intro impI allI)
  fix d st v' st' d' fs
  assume H: "\<forall>n \<in> set (visited path key v). roundtrip_node ext opts n"
    and run: "walkValue d (saveVisit ext opts rs) path key v st = Some (v', st')"
    and "depth v < d'"
  then obtain d1 where d': "d' = Suc d1" by (cases d') auto
  from run obtain d0 where d: "d = Suc d0" by (cases d) auto
  from H leaf have rn: "roundtrip_node ext opts (path, key, v)" by (simp add: visited_leaf)
  with leaf obtain s where v: "v = AString s" and na: "\<not> isArmoredData s"
    and js: "shouldEncryptField opts path key v \<longrightarrow> isl (json_Unmarshal ext s)"
    by (cases v) (auto simp: roundtrip_node_def)
  from na have plain: "armoredString v = None" by (simp add: v armoredString_def)
  show "\<exists>fs'. walkValue d' (loadVisit ext ids) path key v' fs = Some (v, fs')"
  proof (cases rule: saveVisit_cases[of ext opts rs path key v st])
    case (kept st1)
    from walkValue_leaf[where visit="saveVisit ext opts rs", OF kept leaf] run d
    have "v' = v" by simp
    moreover have "walkValue (Suc d1) (loadVisit ext ids) path key v fs = Some (v, fs)"
      by (rule walkValue_leaf[where visit="loadVisit ext ids", OF load_plain[OF plain] leaf])
    ultimately show ?thesis by (simp add: d')
  next
    case (sealed b c st1)
    have "\<not> is_container (AString c)" by simp
    from walkValue_leaf[where visit="saveVisit ext opts rs", OF sealed(5) this] run d
    have v': "v' = AString c" by simp
    from sealed(3) have b: "b = s" by (simp add: dataToEncrypt_def v)
    from seal_open[OF sealed(4)] b have arm: "isArmoredData c" and dec: "Decrypt ext c ids = Inr s"
      by simp_all
    from js sealed(1) have "isl (json_Unmarshal ext s)" by simp
    then have dj: "decodeJSON ext s = v"
      by (cases "json_Unmarshal ext s") (simp_all add: decodeJSON_def v)
    have "loadVisit ext ids path key (AString c) fs = ((v, True), fs @ [loadMeta path key c])"
      using load_opened[OF arm dec] dj by simp
    from walkValue_leaf[where visit="loadVisit ext ids", OF this leaf]
    show ?thesis by (simp add: d' v')
  qed
qed


lemma roundtrip_walk:
  assumes seal_open: "\<And>draw data c. Encrypt ext draw data rs = Inr c \<Longrightarrow>
      isArmoredData c \<and> Decrypt ext c ids = Inr data"
  shows "(\<forall>n \<in> set (visited path key v). roundtrip_node ext opts n) \<longrightarrow>
     (\<forall>d st v' st'. walkValue d (saveVisit ext opts rs) path key v st = Some (v', st') \<longrightarrow>
        (\<forall>d' fs. depth v < d' \<longrightarrow> (\<exists>fs'. walkValue d' (loadVisit ext ids) path key v' fs = Some (v, fs'))))"
    and "(\<forall>n \<in> set (visitedMap cp m). roundtrip_node ext opts n) \<longrightarrow>
     (\<forall>d st m' st'. walkMapLoop (walkValue d (saveVisit ext opts rs)) cp m st = Some (m', st') \<longrightarrow>
        (\<forall>d' fs. depthMap m < d' \<longrightarrow>
           (\<exists>fs'. walkMapLoop (walkValue d' (loadVisit ext ids)) cp m' fs = Some (m, fs'))))"
    and "(\<forall>n \<in> set (visitedSlice cp i s). roundtrip_node ext opts n) \<longrightarrow>
     (\<forall>d st s' st'. walkSliceLoop (walkValue d (saveVisit ext opts rs)) cp i s st = Some (s', st') \<longrightarrow>
        (\<forall>d' fs. depthSlice s < d' \<longrightarrow>
           (\<exists>fs'. walkSliceLoop (walkValue d' (loadVisit ext ids)) cp i s' fs = Some (s, fs'))))"
proof (induction path key v and cp m and cp i s rule: visited_visitedMap_visitedSlice.induct)
  case (1 path key m)
  show ?case
  proof (intro impI allI)
    fix d st v' st' d' fs
    assume H: "\<forall>n \<in> set (visited path key (AMap m)). roundtrip_node ext opts n"
      and run: "walkValue d (saveVisit ext opts rs) path key (AMap m) st = Some (v', st')"
      and "depth (AMap m) < d'"
    then obtain d1 where d': "d' = Suc d1" and dm: "depthMap m < d1" by (cases d') auto
    from run obtain d0 where d: "d = Suc d0" by (cases d) auto
    from H have rn: "roundtrip_node ext opts (path, key, AMap m)"
      and Hm: "\<forall>n \<in> set (visitedMap (currentPath path key) m). roundtrip_node ext opts n"
      by simp_all
    show "\<exists>fs'. walkValue d' (loadVisit ext ids) path key v' fs = Some (AMap m, fs')"
    proof (cases rule: saveVisit_cases[of ext opts rs path key "AMap m" st])
      case (kept st1)
      with run d obtain m' where v': "v' = AMap m'"
        and l: "walkMapLoop (walkValue d0 (saveVisit ext opts rs)) (currentPath path key) m st1 = Some (m', st')"
        by (auto simp: walkMap_def split: option.splits)
      from "1.IH" Hm l dm obtain fs' where
        "walkMapLoop (walkValue d1 (loadVisit ext ids)) (currentPath path key) m' fs = Some (m, fs')"
        by blast
      then have "walkValue (Suc d1) (loadVisit ext ids) path key (AMap m') fs = Some (AMap m, fs')"
        by (simp add: loadVisit_container walkMap_def)
      then show ?thesis by (simp add: d' v')
    next
      case (sealed b c st1)
      have "\<not> is_container (AString c)" by simp
      from walkValue_leaf[where visit="saveVisit ext opts rs", OF sealed(5) this] run d
      have v': "v' = AString c" by simp
      from sealed(3) have jm: "json_Marshal ext (AMap m) = Inr b" by (simp add: dataToEncrypt_def)
      from seal_open[OF sealed(4)] have arm: "isArmoredData c" and dec: "Decrypt ext c ids = Inr b"
        by simp_all
      from rn sealed(1) jm have "json_Unmarshal ext b = Inr (AMap m)"
        by (simp add: roundtrip_node_def)
      then have dj: "decodeJSON ext b = AMap m" by (simp add: decodeJSON_def)
      have lv: "loadVisit ext ids path key (AString c) fs = ((AMap m, True), fs @ [loadMeta path key c])"
        using load_opened[OF arm dec] dj by simp
      from walk_value(2)[where visit="loadVisit ext ids" and cp="currentPath path key" and m=m]
        roundtrip_keeps_load[OF Hm] dm
      obtain fs' where "walkMapLoop (walkValue d1 (loadVisit ext ids)) (currentPath path key) m
          (fs @ [loadMeta path key c]) = Some (m, fs')"
        by blast
      then have "walkValue (Suc d1) (loadVisit ext ids) path key (AString c) fs = Some (AMap m, fs')"
        by (simp add: lv walkMap_def)
      then show ?thesis by (simp add: d' v')
    qed
  qed
next
  case (2 path key s)
  show ?case
  proof (intro impI allI)
    fix d st v' st' d' fs
    assume H: "\<forall>n \<in> set (visited path key (ASlice s)). roundtrip_node ext opts n"
      and run: "walkValue d (saveVisit ext opts rs) path key (ASlice s) st = Some (v', st')"
      and "depth (ASlice s) < d'"
    then obtain d1 where d': "d' = Suc d1" and dm: "depthSlice s < d1" by (cases d') auto
    from run obtain d0 where d: "d = Suc d0" by (cases d) auto
    from H have rn: "roundtrip_node ext opts (path, key, ASlice s)"
      and Hm: "\<forall>n \<in> set (visitedSlice (currentPath path key) 0 s). roundtrip_node ext opts n"
      by simp_all
    show "\<exists>fs'. walkValue d' (loadVisit ext ids) path key v' fs = Some (ASlice s, fs')"
    proof (cases rule: saveVisit_cases[of ext opts rs path key "ASlice s" st])
      case (kept st1)
      with run d obtain s' where v': "v' = ASlice s'"
        and l: "walkSliceLoop (walkValue d0 (saveVisit ext opts rs)) (currentPath path key) 0 s st1 = Some (s', st')"
        by (auto simp: walkSlice_def split: option.splits)
      from "2.IH" Hm l dm obtain fs' where
        "walkSliceLoop (walkValue d1 (loadVisit ext ids)) (currentPath path key) 0 s' fs = Some (s, fs')"
        by blast
      then have "walkValue (Suc d1) (loadVisit ext ids) path key (ASlice s') fs = Some (ASlice s, fs')"
        by (simp add: loadVisit_container walkSlice_def)
      then show ?thesis by (simp add: d' v')
    next
      case (sealed b c st1)
      have "\<not> is_container (AString c)" by simp
      from walkValue_leaf[where visit="saveVisit ext opts rs", OF sealed(5) this] run d
      have v': "v' = AString c" by simp
      from sealed(3) have jm: "json_Marshal ext (ASlice s) = Inr b" by (simp add: dataToEncrypt_def)
      from seal_open[OF sealed(4)] have arm: "isArmoredData c" and dec: "Decrypt ext c ids = Inr b"
        by simp_all
      from rn sealed(1) jm have "json_Unmarshal ext b = Inr (ASlice s)"
        by (simp add: roundtrip_node_def)
      then have dj: "decodeJSON ext b = ASlice s" by (simp add: decodeJSON_def)
      have lv: "loadVisit ext ids path key (AString c) fs = ((ASlice s, True), fs @ [loadMeta path key c])"
        using load_opened[OF arm dec] dj by simp
      from walk_value(3)[where visit="loadVisit ext ids" and cp="currentPath path key" and s=s and i=0]
        roundtrip_keeps_load[OF Hm] dm
      obtain fs' where "walkSliceLoop (walkValue d1 (loadVisit ext ids)) (currentPath path key) 0 s
          (fs @ [loadMeta path key c]) = Some (s, fs')"
        by blast
      then have "walkValue (Suc d1) (loadVisit ext ids) path key (AString c) fs = Some (ASlice s, fs')"
        by (simp add: lv walkSlice_def)
      then show ?thesis by (simp add: d' v')
    qed
  qed
next
  case (4 cp)
  show ?case by auto
next
  case (5 cp k v m)
  show ?case
  proof (intro impI allI)
    fix d st m' st' d' fs
    assume H: "\<forall>n \<in> set (visitedMap cp ((k, v) # m)). roundtrip_node ext opts n"
      and run: "walkMapLoop (walkValue d (saveVisit ext opts rs)) cp ((k, v) # m) st = Some (m', st')"
      and dd: "depthMap ((k, v) # m) < d'"
    from dd have dv: "depth v < d'" and dm: "depthMap m < d'" by auto
    from H have Hv: "\<forall>n \<in> set (visited cp k v). roundtrip_node ext opts n"
      and Hm: "\<forall>n \<in> set (visitedMap cp m). roundtrip_node ext opts n" by auto
    from run obtain nv st1 res where
      a: "walkValue d (saveVisit ext opts rs) cp k v st = Some (nv, st1)"
      and b: "walkMapLoop (walkValue d (saveVisit ext opts rs)) cp m st1 = Some (res, st')"
      and m': "m' = (k, nv) # res"
      by (auto split: option.splits)
    from "5.IH"(1) Hv a dv obtain fs1 where
      la: "walkValue d' (loadVisit ext ids) cp k nv fs = Some (v, fs1)" by blast
    from "5.IH"(2) Hm b dm obtain fs2 where
      lb: "walkMapLoop (walkValue d' (loadVisit ext ids)) cp res fs1 = Some (m, fs2)" by blast
    show "\<exists>fs'. walkMapLoop (walkValue d' (loadVisit ext ids)) cp m' fs = Some ((k, v) # m, fs')"
      using la lb by (simp add: m')
  qed
next
  case (6 cp i)
  show ?case by auto
next
  case (7 cp i v s)
  show ?case
  proof (intro impI allI)
    fix d st s' st' d' fs
    assume H: "\<forall>n \<in> set (visitedSlice cp i (v # s)). roundtrip_node ext opts n"
      and run: "walkSliceLoop (walkValue d (saveVisit ext opts rs)) cp i (v # s) st = Some (s', st')"
      and dd: "depthSlice (v # s) < d'"
    from dd have dv: "depth v < d'" and dm: "depthSlice s < d'" by auto
    from H have Hv: "\<forall>n \<in> set (visited cp (indexKey i) v). roundtrip_node ext opts n"
      and Hm: "\<forall>n \<in> set (visitedSlice cp (Suc i) s). roundtrip_node ext opts n" by auto
    from run obtain nv st1 res where
      a: "walkValue d (saveVisit ext opts rs) cp (indexKey i) v st = Some (nv, st1)"
      and b: "walkSliceLoop (walkValue d (saveVisit ext opts rs)) cp (Suc i) s st1 = Some (res, st')"
      and s': "s' = nv # res"
      by (auto split: option.splits)
    from "7.IH"(1) Hv a dv obtain fs1 where
      la: "walkValue d' (loadVisit ext ids) cp (indexKey i) nv fs = Some (v, fs1)" by blast
    from "7.IH"(2) Hm b dm obtain fs2 where
      lb: "walkSliceLoop (walkValue d' (loadVisit ext ids)) cp (Suc i) res fs1 = Some (s, fs2)" by blast
    show "\<exists>fs'. walkSliceLoop (walkValue d' (loadVisit ext ids)) cp i s' fs = Some (v # s, fs')"
      using la lb by (simp add: s')
  qed
qed (rule roundtrip_leaf[OF seal_open], assumption, simp)+

theorem C1_roundtrip_strings:
  assumes rcp: "LoadRecipients ext (Keys opts) = Inr recipients"
    and ne: "recipients \<noteq> []"
    and seal_open: "\<And>draw data c. Encrypt ext draw data recipients = Inr c \<Longrightarrow>
        isArmoredData c \<and> Decrypt ext c identities = Inr data"
    and nodes: "\<forall>n \<in> set (visited [] [] (AMap m)). roundtrip_node ext (setDefaults opts) n"
    and save: "SaveTree d ext (AMap m) opts = Some (Inr (AMap m', fs))"
    and d': "depth (AMap m) < d'"
  shows "\<exists>fs'. LoadTree d' ext m' identities = Some (Inr \<lparr>Tree = m, Fields = fs'\<rparr>)"
proof -
  let ?S = "saveVisit ext (setDefaults opts) recipients"
  from save obtain st' where
    w: "walkValue d ?S [] [] (AMap m) \<lparr>recorded = [], draws = 0\<rparr> = Some (AMap m', st')"
    by (auto simp: SaveTree_walk[OF rcp ne] split: option.splits)
  have R: "(\<forall>n \<in> set (visited [] [] (AMap m)). roundtrip_node ext (setDefaults opts) n) \<longrightarrow>
     (\<forall>d st v' st'. walkValue d ?S [] [] (AMap m) st = Some (v', st') \<longrightarrow>
        (\<forall>d' fs. depth (AMap m) < d' \<longrightarrow>
           (\<exists>fs'. walkValue d' (loadVisit ext identities) [] [] v' fs = Some (AMap m, fs'))))"
  proof (rule roundtrip_walk(1))
    fix draw data c
    assume "Encrypt ext draw data recipients = Inr c"
    then show "isArmoredData c \<and> Decrypt ext c identities = Inr data" by (rule seal_open)
  qed
  have "\<exists>fs'. walkValue d' (loadVisit ext identities) [] [] (AMap m') [] = Some (AMap m, fs')"
    using R nodes w d' by blast
  then obtain fs' where "walkValue d' (loadVisit ext identities) [] [] (AMap m') [] = Some (AMap m, fs')"
    ..
  then have "LoadTree d' ext m' identities = Some (Inr \<lparr>Tree = m, Fields = fs'\<rparr>)"
    by (rule LoadTree_walk)
  then show ?thesis ..
qed

end
